theory Spec2Isabelle
  imports Complex_Main "HOL-Library.Sublist"
begin

section \<open>Text: Python strings as lists of code points\<close>

text \<open>
  A Python \<open>str\<close> is a sequence of Unicode code points; \<open>core.py\<close> replaces the rupee
  sign U+20B9, which is no 8-bit character, so the model takes a code point to be a natural
  number. \<open>u\<close> reads an ASCII literal.
\<close>

type_synonym str = "nat list"

definition u :: "string \<Rightarrow> str" where
  "u s = map of_char s"

text \<open>
  \<open>\d\<close>, \<open>\s\<close>, \<open>str.strip\<close>, \<open>str.lower\<close>, \<open>str.upper\<close> and \<open>(?i)\<close> consult the Unicode
  character database of the interpreter. It is no code of this repository, so it is a
  parameter of the model: \<open>decimal\<close> gives the value of a decimal digit (\<open>\d\<close> and \<open>float\<close>),
  \<open>whitespace\<close> is \<open>str.isspace\<close>, \<open>lower\<close> and \<open>upper\<close> are the string methods, and
  \<open>ci_eq p c\<close> says that the pattern character \<open>p\<close> matches \<open>c\<close> when case is ignored.
\<close>

record ucd =
  decimal :: "nat \<Rightarrow> nat option"
  whitespace :: "nat \<Rightarrow> bool"
  lower :: "str \<Rightarrow> str"
  upper :: "str \<Rightarrow> str"
  ci_eq :: "nat \<Rightarrow> nat \<Rightarrow> bool"

text \<open>The database restricted to ASCII, for evaluation on concrete ASCII inputs.\<close>

definition ascii_lower_char :: "nat \<Rightarrow> nat" where
  "ascii_lower_char c = (if 65 \<le> c \<and> c \<le> 90 then c + 32 else c)"

definition ascii_upper_char :: "nat \<Rightarrow> nat" where
  "ascii_upper_char c = (if 97 \<le> c \<and> c \<le> 122 then c - 32 else c)"

definition ascii :: ucd where
  "ascii = \<lparr> decimal = (\<lambda>c. if 48 \<le> c \<and> c \<le> 57 then Some (c - 48) else None),
             whitespace = (\<lambda>c. c \<in> set [9, 10, 11, 12, 13, 28, 29, 30, 31, 32]),
             lower = map ascii_lower_char,
             upper = map ascii_upper_char,
             ci_eq = (\<lambda>p c. ascii_lower_char p = ascii_lower_char c) \<rparr>"

subsection \<open>String operations\<close>

text \<open>\<open>a in s\<close> on strings: \<open>a\<close> occurs in \<open>s\<close> as a contiguous substring.\<close>

fun contains :: "str \<Rightarrow> str \<Rightarrow> bool" where
  "contains p [] = (p = [])"
| "contains p (c # cs) = (prefix p (c # cs) \<or> contains p cs)"

text \<open>
  \<open>s.replace(old, new)\<close>: the occurrences of \<open>old\<close> are found from left to right and do not
  overlap. With an empty \<open>old\<close>, \<open>new\<close> is inserted before every character and at the end.
\<close>

function replace :: "str \<Rightarrow> str \<Rightarrow> str \<Rightarrow> str" where
  "replace [] new s = new @ concat (map (\<lambda>c. c # new) s)"
| "replace (o1 # os) new [] = []"
| "replace (o1 # os) new (c # cs) =
     (if prefix (o1 # os) (c # cs)
      then new @ replace (o1 # os) new (drop (length (o1 # os)) (c # cs))
      else c # replace (o1 # os) new cs)"
  by pat_completeness auto
termination
  by (relation "measure (\<lambda>(old, new, s). length s)") auto

text \<open>\<open>s.split('\n')\<close>: the pieces between line feeds; the result is never empty.\<close>

fun split_nl :: "str \<Rightarrow> str list" where
  "split_nl [] = [[]]"
| "split_nl (c # cs) =
     (if c = 10 then [] # split_nl cs
      else (case split_nl cs of [] \<Rightarrow> [[c]] | l # ls \<Rightarrow> (c # l) # ls))"

definition strip :: "ucd \<Rightarrow> str \<Rightarrow> str" where
  "strip U s = rev (dropWhile (whitespace U) (rev (dropWhile (whitespace U) s)))"

section \<open>Regular expressions of \<open>re\<close>: a backtracking matcher\<close>

text \<open>
  The patterns of \<open>core.py\<close> as syntax trees. A class is a bracket expression, or a
  shorthand (\<open>\d\<close> is \<open>In [DigitI]\<close>, a literal \<open>Z\<close> is \<open>In [Chr 90]\<close>).
\<close>

datatype item = Chr nat | Rng nat nat | DigitI | SpaceI

datatype cls = In "item list" | NotIn "item list"

datatype re =
    Eps
  | Atom cls
  | Seq re re
  | Alt re re
  | Opt re
  | Star re
  | Plus re
  | Rep nat nat re
  | Grp nat re

fun item_match :: "ucd \<Rightarrow> bool \<Rightarrow> item \<Rightarrow> nat \<Rightarrow> bool" where
  "item_match U ic (Chr p) x = (if ic then ci_eq U p x else x = p)"
| "item_match U ic (Rng lo hi) x =
     (if ic then list_ex (\<lambda>p. ci_eq U p x) [lo ..< Suc hi] else lo \<le> x \<and> x \<le> hi)"
| "item_match U ic DigitI x = (decimal U x \<noteq> None)"
| "item_match U ic SpaceI x = whitespace U x"

fun cls_match :: "ucd \<Rightarrow> bool \<Rightarrow> cls \<Rightarrow> nat \<Rightarrow> bool" where
  "cls_match U ic (In its) x = list_ex (\<lambda>i. item_match U ic i x) its"
| "cls_match U ic (NotIn its) x = (\<not> list_ex (\<lambda>i. item_match U ic i x) its)"

text \<open>
  A matcher state is the groups captured so far and the text still to read. \<open>ms r st\<close> lists
  the states in which a match of \<open>r\<close> from \<open>st\<close> can end, in the order in which the
  backtracking engine tries them: greedy repetitions try the longest first, an alternation
  its left branch first. The match the engine reports is the head of the list.
\<close>

type_synonym mstate = "(nat \<times> str) list \<times> str"

text \<open>\<open>r*\<close>: as many rounds as possible first; a round that reads nothing ends the loop.\<close>

fun star :: "(mstate \<Rightarrow> mstate list) \<Rightarrow> nat \<Rightarrow> mstate \<Rightarrow> mstate list" where
  "star f 0 st = [st]"
| "star f (Suc n) st =
     concat (map (\<lambda>st'. if length (snd st') < length (snd st) then star f n st' else [])
                 (f st)) @ [st]"

text \<open>\<open>r{lo,hi}\<close>, greedy.\<close>

fun rep :: "(mstate \<Rightarrow> mstate list) \<Rightarrow> nat \<Rightarrow> nat \<Rightarrow> mstate \<Rightarrow> mstate list" where
  "rep f lo 0 st = (if lo = 0 then [st] else [])"
| "rep f lo (Suc hi) st =
     concat (map (rep f (lo - 1) hi) (f st)) @ (if lo = 0 then [st] else [])"

primrec ms :: "ucd \<Rightarrow> bool \<Rightarrow> re \<Rightarrow> mstate \<Rightarrow> mstate list" where
  "ms U ic Eps = (\<lambda>st. [st])"
| "ms U ic (Atom c) = (\<lambda>st. case snd st of
       [] \<Rightarrow> []
     | x # xs \<Rightarrow> if cls_match U ic c x then [(fst st, xs)] else [])"
| "ms U ic (Seq a b) = (\<lambda>st. concat (map (ms U ic b) (ms U ic a st)))"
| "ms U ic (Alt a b) = (\<lambda>st. ms U ic a st @ ms U ic b st)"
| "ms U ic (Opt a) = (\<lambda>st. ms U ic a st @ [st])"
| "ms U ic (Star a) = (\<lambda>st. star (ms U ic a) (length (snd st)) st)"
| "ms U ic (Plus a) = (\<lambda>st.
       concat (map (\<lambda>st'. star (ms U ic a) (length (snd st')) st') (ms U ic a st)))"
| "ms U ic (Rep lo hi a) = (\<lambda>st. rep (ms U ic a) lo hi st)"
| "ms U ic (Grp n a) = (\<lambda>st.
       map (\<lambda>st'. ((n, take (length (snd st) - length (snd st')) (snd st)) # fst st', snd st'))
           (ms U ic a st))"

text \<open>A literal string as a pattern.\<close>

fun lit :: "str \<Rightarrow> re" where
  "lit [] = Eps"
| "lit (c # cs) = Seq (Atom (In [Chr c])) (lit cs)"

text \<open>The match at the start of \<open>s\<close>, if there is one: its groups and the text after it.\<close>

definition match_here :: "ucd \<Rightarrow> bool \<Rightarrow> re \<Rightarrow> str \<Rightarrow> mstate option" where
  "match_here U ic r s = (case ms U ic r ([], s) of [] \<Rightarrow> None | st # _ \<Rightarrow> Some st)"

text \<open>
  \<open>re.search\<close>: the match at the leftmost position that has one. The result is the groups
  and the matched text (group 0).
\<close>

fun search :: "ucd \<Rightarrow> bool \<Rightarrow> re \<Rightarrow> str \<Rightarrow> ((nat \<times> str) list \<times> str) option" where
  "search U ic r [] =
     (case match_here U ic r [] of None \<Rightarrow> None | Some (g, rest) \<Rightarrow> Some (g, []))"
| "search U ic r (c # cs) =
     (case match_here U ic r (c # cs) of
        None \<Rightarrow> search U ic r cs
      | Some (g, rest) \<Rightarrow> Some (g, take (length (c # cs) - length rest) (c # cs)))"

text \<open>
  The matches \<open>re.findall\<close> and \<open>re.finditer\<close> walk through: leftmost first, the next search
  starts where the last match ended (one character further after an empty match).
\<close>

function finditer :: "ucd \<Rightarrow> bool \<Rightarrow> re \<Rightarrow> str \<Rightarrow> ((nat \<times> str) list \<times> str) list" where
  "finditer U ic r [] =
     (case match_here U ic r [] of None \<Rightarrow> [] | Some (g, rest) \<Rightarrow> [(g, [])])"
| "finditer U ic r (c # cs) =
     (case match_here U ic r (c # cs) of
        None \<Rightarrow> finditer U ic r cs
      | Some (g, rest) \<Rightarrow>
          (if length rest < length (c # cs)
           then (g, take (length (c # cs) - length rest) (c # cs)) # finditer U ic r rest
           else (g, []) # finditer U ic r cs))"
  by pat_completeness auto
termination
  by (relation "measure (\<lambda>(U, ic, r, s). length s)") auto

text \<open>\<open>m.group(n)\<close> for a group that took part in the match.\<close>

definition group :: "nat \<Rightarrow> (nat \<times> str) list \<times> str \<Rightarrow> str" where
  "group n m = (if n = 0 then snd m else (case map_of (fst m) n of None \<Rightarrow> [] | Some t \<Rightarrow> t))"

text \<open>
  \<open>re.findall\<close>: the list of group 1 for a pattern with one group, of the whole matches
  for a pattern with none.
\<close>

definition findall1 :: "ucd \<Rightarrow> re \<Rightarrow> str \<Rightarrow> str list" where
  "findall1 U r s = map (group 1) (finditer U False r s)"

definition findall0 :: "ucd \<Rightarrow> re \<Rightarrow> str \<Rightarrow> str list" where
  "findall0 U r s = map (group 0) (finditer U False r s)"

section \<open>\<open>core.py\<close>: the patterns\<close>

definition digit :: re where
  "digit = Atom (In [DigitI])"

definition space :: re where
  "space = Atom (In [SpaceI])"

text \<open>\<^verbatim>\<open>AMOUNT_REGEX = r'(?:INR\s*)?(\d{1,3}(?:,\d{3})*\.\d{2})'\<close>\<close>

definition AMOUNT_REGEX :: re where
  "AMOUNT_REGEX =
     Seq (Opt (Seq (lit (u ''INR'')) (Star space)))
         (Grp 1 (Seq (Rep 1 3 digit)
                (Seq (Star (Seq (lit (u '','')) (Rep 3 3 digit)))
                (Seq (lit (u ''.'')) (Rep 2 2 digit)))))"

text \<open>\<^verbatim>\<open>r'\.\d{2}'\<close>\<close>

definition frac_pattern :: re where
  "frac_pattern = Seq (lit (u ''.'')) (Rep 2 2 digit)"

text \<open>\<^verbatim>\<open>gst_pattern = r'\d{2}[A-Z]{5}\d{4}[A-Z]{1}[1-9A-Z]{1}Z[0-9A-Z]{1}'\<close>\<close>

definition gst_pattern :: re where
  "gst_pattern =
     Seq (Rep 2 2 digit)
    (Seq (Rep 5 5 (Atom (In [Rng 65 90])))
    (Seq (Rep 4 4 digit)
    (Seq (Rep 1 1 (Atom (In [Rng 65 90])))
    (Seq (Rep 1 1 (Atom (In [Rng 49 57, Rng 65 90])))
    (Seq (Atom (In [Chr 90]))
         (Rep 1 1 (Atom (In [Rng 48 57, Rng 65 90])))))))) "

text \<open>\<^verbatim>\<open>r'(?i)(invoice to|bill to|billed to)\s*[:.-]?\s*\n+([^\n]+)'\<close>\<close>

definition buyer_pattern :: re where
  "buyer_pattern =
     Seq (Grp 1 (Alt (lit (u ''invoice to'')) (Alt (lit (u ''bill to'')) (lit (u ''billed to'')))))
    (Seq (Star space)
    (Seq (Opt (Atom (In [Chr 58, Chr 46, Chr 45])))
    (Seq (Star space)
    (Seq (Plus (Atom (In [Chr 10])))
         (Grp 2 (Plus (Atom (NotIn [Chr 10]))))))))"

text \<open>\<^verbatim>\<open>r'(?i)(invoice\s*no|inv\s*#)\s*[:.]?\s*([A-Za-z0-9/-]+)'\<close>\<close>

definition inv_pattern :: re where
  "inv_pattern =
     Seq (Grp 1 (Alt (Seq (lit (u ''invoice'')) (Seq (Star space) (lit (u ''no''))))
                     (Seq (lit (u ''inv'')) (Seq (Star space) (lit (u ''#''))))))
    (Seq (Star space)
    (Seq (Opt (Atom (In [Chr 58, Chr 46])))
    (Seq (Star space)
         (Grp 2 (Plus (Atom (In [Rng 65 90, Rng 97 122, Rng 48 57, Chr 47, Chr 45])))))))"

text \<open>\<^verbatim>\<open>r'(\d{2}[/-]\d{2}[/-]\d{4})'\<close>\<close>

definition date_pattern :: re where
  "date_pattern =
     Grp 1 (Seq (Rep 2 2 digit)
           (Seq (Atom (In [Chr 47, Chr 45]))
           (Seq (Rep 2 2 digit)
           (Seq (Atom (In [Chr 47, Chr 45]))
                (Rep 4 4 digit)))))"

section \<open>\<open>core.py\<close>: the label-proximity amount search\<close>

text \<open>
  \<open>extract_amount_smart\<close> is a closure over \<open>lines\<close>; the loop
  \<open>for i, line in enumerate(lines)\<close> is the recursion on the index \<open>i\<close>, \<open>continue\<close> is
  the call at \<open>Suc i\<close>. The result of the function is \<open>None\<close> or the string returned.
\<close>

definition has_keyword :: "ucd \<Rightarrow> str list \<Rightarrow> str \<Rightarrow> bool" where
  "has_keyword U label_keywords line =
     list_ex (\<lambda>k. contains (lower U k) (lower U line)) label_keywords"

definition strip_commas :: "str \<Rightarrow> str" where
  "strip_commas m = replace (u '','') [] m"

function eas_loop :: "ucd \<Rightarrow> str list \<Rightarrow> str list \<Rightarrow> nat \<Rightarrow> str option" where
  "eas_loop U lines label_keywords i =
     (if i < length lines then
        (if \<not> has_keyword U label_keywords (lines ! i)
         then eas_loop U lines label_keywords (Suc i)
         else if contains (u ''%'') (lines ! i) \<and> search U False frac_pattern (lines ! i) = None
         then eas_loop U lines label_keywords (Suc i)
         else (case findall1 U AMOUNT_REGEX (lines ! i) of
                 m # matches \<Rightarrow> Some (strip_commas (last (m # matches)))
               | [] \<Rightarrow>
                  (if i + 1 < length lines then
                     (if contains (u ''%'') (lines ! (i + 1))
                      then eas_loop U lines label_keywords (Suc i)
                      else (case findall1 U AMOUNT_REGEX (lines ! (i + 1)) of
                              m # matches \<Rightarrow> Some (strip_commas (last (m # matches)))
                            | [] \<Rightarrow> eas_loop U lines label_keywords (Suc i)))
                   else eas_loop U lines label_keywords (Suc i))))
      else None)"
  by pat_completeness auto
termination
  by (relation "measure (\<lambda>(U, lines, label_keywords, i). length lines - i)") auto

declare eas_loop.simps [simp del]

definition extract_amount_smart :: "ucd \<Rightarrow> str list \<Rightarrow> str list \<Rightarrow> str option" where
  "extract_amount_smart U lines label_keywords = eas_loop U lines label_keywords 0"

section \<open>Python floats\<close>

text \<open>
  The fallback total is computed with \<open>float\<close>: IEEE 754 binary64, every operation rounded
  to the nearest value, ties to even. The values that occur are sums of unsigned decimal
  literals, so the model has the non-negative doubles, as the rationals they denote, and
  \<open>inf\<close>.
\<close>

datatype pyfloat = Finite rat | Infinity

definition round_half_even :: "rat \<Rightarrow> int" where
  "round_half_even x =
     (let f = \<lfloor>x\<rfloor>; d = x - of_int f
      in if d < 1 / 2 then f else if 1 / 2 < d then f + 1 else if even f then f else f + 1)"

text \<open>The number of binary digits of a positive integer.\<close>

function bitlen :: "int \<Rightarrow> nat" where
  "bitlen n = (if n \<le> 0 then 0 else Suc (bitlen (n div 2)))"
  by pat_completeness auto
termination
  by (relation "measure nat") auto

declare bitlen.simps [simp del]

definition pow2 :: "int \<Rightarrow> rat" where
  "pow2 k = (if 0 \<le> k then 2 ^ nat k else 1 / 2 ^ nat (- k))"

text \<open>The binary exponent of \<open>q > 0\<close>: \<open>pow2 (ilog2 q) \<le> q < pow2 (ilog2 q + 1)\<close>.\<close>

definition ilog2 :: "rat \<Rightarrow> int" where
  "ilog2 q = (if 1 \<le> q then int (bitlen \<lfloor>q\<rfloor>) - 1
              else - int (bitlen (\<lceil>1 / q\<rceil> - 1)))"

text \<open>
  The double nearest to \<open>q \<ge> 0\<close>: 53 significant bits, spacing \<open>pow2 (-1074)\<close> below the normal
  range, \<open>inf\<close> from \<open>pow2 1024\<close> on.
\<close>

definition to_double :: "rat \<Rightarrow> pyfloat" where
  "to_double q =
     (if q \<le> 0 then Finite 0
      else (let k = max (ilog2 q - 52) (- 1074);
                r = of_int (round_half_even (q / pow2 k)) * pow2 k
            in if pow2 1024 \<le> r then Infinity else Finite r))"

fun float_add :: "pyfloat \<Rightarrow> pyfloat \<Rightarrow> pyfloat" where
  "float_add (Finite a) (Finite b) = to_double (a + b)"
| "float_add _ _ = Infinity"

fun float_gt0 :: "pyfloat \<Rightarrow> bool" where
  "float_gt0 (Finite a) = (0 < a)"
| "float_gt0 Infinity = True"

datatype exn = ValueError | KeyError | UnicodeEncodeError | UnicodeDecodeError | InvalidToken

definition digits_val :: "ucd \<Rightarrow> str \<Rightarrow> int" where
  "digits_val U ds =
     foldl (\<lambda>a c. 10 * a + (case decimal U c of None \<Rightarrow> 0 | Some v \<Rightarrow> int v)) 0 ds"

text \<open>
  \<open>float(s)\<close> on a literal \<open>digits\<close>, \<open>digits.digits\<close>, \<open>digits.\<close> or \<open>.digits\<close>, the digits being
  any Unicode decimal digits. The other forms \<open>float\<close> accepts (a sign, an exponent,
  underscores, surrounding white space, \<open>inf\<close>, \<open>nan\<close>) are not modelled and are a \<open>ValueError\<close>
  here; the strings \<open>core.py\<close> converts are \<open>"0.00"\<close> and matches of the amount pattern
  without their commas.
\<close>

definition py_float :: "ucd \<Rightarrow> str \<Rightarrow> exn + pyfloat" where
  "py_float U s =
     (let ip = takeWhile (\<lambda>c. c \<noteq> 46) s;
          fp = drop 1 (dropWhile (\<lambda>c. c \<noteq> 46) s)
      in if ip @ fp \<noteq> [] \<and> list_all (\<lambda>c. decimal U c \<noteq> None) (ip @ fp)
         then Inr (to_double (of_int (digits_val U (ip @ fp)) / 10 ^ length fp))
         else Inl ValueError)"

text \<open>The decimal digits of an integer that is not negative.\<close>

function dec_digits :: "int \<Rightarrow> str" where
  "dec_digits n =
     (if n < 10 then [48 + nat n] else dec_digits (n div 10) @ [48 + nat (n mod 10)])"
  by pat_completeness auto
termination
  by (relation "measure nat") auto

declare dec_digits.simps [simp del]

text \<open>\<open>f"{x:.2f}"\<close>: the value of the double rounded to hundredths, ties to even.\<close>

fun py_format_2f :: "pyfloat \<Rightarrow> str" where
  "py_format_2f (Finite q) =
     (let c = round_half_even (q * 100)
      in dec_digits (c div 100) @ [46, 48 + nat ((c mod 100) div 10), 48 + nat (c mod 10)])"
| "py_format_2f Infinity = u ''inf''"

section \<open>\<open>core.py\<close>: \<open>_parse_deep_fields\<close> and \<open>process_invoice\<close>\<close>

type_synonym pydict = "string \<Rightarrow> str option"

definition data0 :: pydict where
  "data0 = [''invoice_number'' \<mapsto> u ''N/A'',
            ''invoice_date'' \<mapsto> u ''N/A'',
            ''vendor_name'' \<mapsto> u ''Unknown'',
            ''vendor_gstin'' \<mapsto> u ''N/A'',
            ''buyer_name'' \<mapsto> u ''Unknown'',
            ''cgst'' \<mapsto> u ''0.00'',
            ''sgst'' \<mapsto> u ''0.00'',
            ''grand_total'' \<mapsto> u ''0.00'',
            ''currency'' \<mapsto> u ''INR'']"

text \<open>\<open>lines = [l.strip() for l in text.split('\n') if l.strip()]\<close>\<close>

definition lines_of :: "ucd \<Rightarrow> str \<Rightarrow> str list" where
  "lines_of U t = map (strip U) (filter (\<lambda>l. strip U l \<noteq> []) (split_nl t))"

text \<open>The vendor loop over \<open>lines[:10]\<close>: \<open>continue\<close> on boilerplate, \<open>break\<close> after the first other line.\<close>

fun vendor_loop :: "ucd \<Rightarrow> str list \<Rightarrow> pydict \<Rightarrow> pydict" where
  "vendor_loop U [] data = data"
| "vendor_loop U (line # rest) data =
     (if contains (u ''TAXINVOICE'') (replace (u '' '') [] (upper U line))
         \<or> contains (u ''ORIGINAL'') (replace (u '' '') [] (upper U line))
      then vendor_loop U rest data
      else data(''vendor_name'' \<mapsto> line))"

text \<open>A string result of \<open>extract_amount_smart\<close> that is true in \<open>if val:\<close>.\<close>

fun truthy :: "str option \<Rightarrow> bool" where
  "truthy None = False"
| "truthy (Some s) = (s \<noteq> [])"

definition set_amount :: "ucd \<Rightarrow> str list \<Rightarrow> string \<Rightarrow> str list \<Rightarrow> pydict \<Rightarrow> pydict" where
  "set_amount U lines key label_keywords data =
     (case extract_amount_smart U lines label_keywords of
        None \<Rightarrow> data
      | Some v \<Rightarrow> if v \<noteq> [] then data(key \<mapsto> v) else data)"

text \<open>The loop over the labels of the total, with its \<open>break\<close>.\<close>

fun total_loop :: "ucd \<Rightarrow> str list \<Rightarrow> str list \<Rightarrow> pydict \<Rightarrow> pydict" where
  "total_loop U lines [] data = data"
| "total_loop U lines (key # keys) data =
     (if truthy (extract_amount_smart U lines [key])
      then data(''grand_total'' \<mapsto> the (extract_amount_smart U lines [key]))
      else total_loop U lines keys data)"

definition total_keys :: "str list" where
  "total_keys = [u ''Grand Total'', u ''TOTAL AMOUNT'', u ''Amount Payable'', u ''Invoice Total'']"

definition getitem :: "pydict \<Rightarrow> string \<Rightarrow> exn + str" where
  "getitem d k = (case d k of None \<Rightarrow> Inl KeyError | Some v \<Rightarrow> Inr v)"

text \<open>\<open>float(x) if x else 0\<close>\<close>

definition float_if :: "ucd \<Rightarrow> str \<Rightarrow> exn + pyfloat" where
  "float_if U x = (if x \<noteq> [] then py_float U x else Inr (Finite 0))"

text \<open>
  The body of the \<open>try\<close>; \<open>Inl\<close> is an exception raised in it, \<open>Inr\<close> the new value of
  \<open>data['grand_total']\<close>, if it is assigned.
\<close>

definition fallback_body :: "ucd \<Rightarrow> str list \<Rightarrow> pydict \<Rightarrow> exn + str option" where
  "fallback_body U lines data =
     (case (case extract_amount_smart U lines [u ''Subtotal'', u ''Sub Total'', u ''Total''] of
              None \<Rightarrow> Inr (Finite 0)
            | Some s \<Rightarrow> float_if U s) of
        Inl e \<Rightarrow> Inl e
      | Inr subtotal \<Rightarrow>
     (case getitem data ''cgst'' of Inl e \<Rightarrow> Inl e | Inr c \<Rightarrow>
     (case float_if U c of Inl e \<Rightarrow> Inl e | Inr cgst_val \<Rightarrow>
     (case getitem data ''sgst'' of Inl e \<Rightarrow> Inl e | Inr g \<Rightarrow>
     (case float_if U g of Inl e \<Rightarrow> Inl e | Inr sgst_val \<Rightarrow>
        (let computed = float_add (float_add subtotal cgst_val) sgst_val
         in if float_gt0 computed then Inr (Some (py_format_2f computed)) else Inr None))))))"

text \<open>\<open>if data['grand_total'] == "0.00": try: ... except: pass\<close>\<close>

definition fallback :: "ucd \<Rightarrow> str list \<Rightarrow> pydict \<Rightarrow> pydict" where
  "fallback U lines data =
     (if data ''grand_total'' = Some (u ''0.00'')
      then (case fallback_body U lines data of
              Inr (Some t) \<Rightarrow> data(''grand_total'' \<mapsto> t)
            | _ \<Rightarrow> data)
      else data)"

definition set_gstin :: "ucd \<Rightarrow> str \<Rightarrow> pydict \<Rightarrow> pydict" where
  "set_gstin U t data =
     (case findall0 U gst_pattern t of [] \<Rightarrow> data | g # all_gst \<Rightarrow> data(''vendor_gstin'' \<mapsto> g))"

definition set_buyer :: "ucd \<Rightarrow> str \<Rightarrow> pydict \<Rightarrow> pydict" where
  "set_buyer U t data =
     (case search U True buyer_pattern t of
        None \<Rightarrow> data
      | Some m \<Rightarrow> data(''buyer_name'' \<mapsto> strip U (group 2 m)))"

definition set_invoice_number :: "ucd \<Rightarrow> str \<Rightarrow> pydict \<Rightarrow> pydict" where
  "set_invoice_number U t data =
     (case search U True inv_pattern t of
        None \<Rightarrow> data
      | Some m \<Rightarrow> data(''invoice_number'' \<mapsto> group 2 m))"

definition set_invoice_date :: "ucd \<Rightarrow> str \<Rightarrow> pydict \<Rightarrow> pydict" where
  "set_invoice_date U t data =
     (case search U False date_pattern t of
        None \<Rightarrow> data
      | Some m \<Rightarrow> data(''invoice_date'' \<mapsto> group 1 m))"

definition set_vendor_alias :: "pydict \<Rightarrow> pydict" where
  "set_vendor_alias data = data(''vendor'' := data ''vendor_name'')"

definition parse_deep_fields :: "ucd \<Rightarrow> str \<Rightarrow> pydict" where
  "parse_deep_fields U t =
     (let lines = lines_of U t
      in set_vendor_alias
        (fallback U lines
        (total_loop U lines total_keys
        (set_amount U lines ''sgst'' [u ''SGST'']
        (set_amount U lines ''cgst'' [u ''CGST'']
        (set_invoice_date U t
        (set_invoice_number U t
        (set_buyer U t
        (set_gstin U t
        (vendor_loop U (take 10 lines) data0))))))))))"

text \<open>
  \<open>process_invoice\<close>, from the text that \<open>_extract_content\<close> recovered from the file (text
  layer or OCR, outside the model).
\<close>

definition empty_file :: pydict where
  "empty_file = [''status'' \<mapsto> u ''Error'', ''error'' \<mapsto> u ''Empty File'']"

definition normalize_currency :: "str \<Rightarrow> str" where
  "normalize_currency t =
     replace [226, 8218, 185] (u ''INR '')
    (replace (u ''Rs'') (u ''INR '')
    (replace (u ''Rs.'') (u ''INR '')
    (replace [8377] (u ''INR '') t)))"

definition process_invoice :: "ucd \<Rightarrow> str \<Rightarrow> pydict" where
  "process_invoice U t =
     (if t = [] then empty_file else parse_deep_fields U (normalize_currency t))"

section \<open>\<open>security.py\<close>: \<open>SecurityManager\<close>\<close>

text \<open>
  The Fernet cipher of the \<open>cryptography\<close> package, the UTF-8 codec and \<open>json.dumps\<close> are
  library code, parameters of the model. A token depends on the plaintext and on the time and
  the random bytes Fernet draws, the argument \<open>rnd\<close>; \<open>fernet_decrypt\<close> raises \<open>InvalidToken\<close>
  on a token that was not made with the key. \<open>encode\<close> and \<open>decode\<close> raise on what UTF-8
  cannot represent.
\<close>

type_synonym bytes = "nat list"

record lib =
  fernet_encrypt :: "nat \<Rightarrow> bytes \<Rightarrow> bytes"
  fernet_decrypt :: "bytes \<Rightarrow> exn + bytes"
  encode :: "str \<Rightarrow> exn + bytes"
  decode :: "bytes \<Rightarrow> exn + str"
  json_dumps :: "pydict \<Rightarrow> str"

definition DECRYPTION_FAILED :: str where
  "DECRYPTION_FAILED = u ''[DECRYPTION_FAILED]''"

text \<open>\<open>Inl\<close> is an exception that leaves the method.\<close>

definition encrypt_data :: "lib \<Rightarrow> nat \<Rightarrow> str \<Rightarrow> exn + bytes" where
  "encrypt_data L rnd data =
     (if data = [] then Inr []
      else (case encode L data of Inl e \<Rightarrow> Inl e | Inr b \<Rightarrow> Inr (fernet_encrypt L rnd b)))"

definition decrypt_data :: "lib \<Rightarrow> bytes \<Rightarrow> exn + str" where
  "decrypt_data L token =
     (if token = [] then Inr []
      else (case (case fernet_decrypt L token of Inl e \<Rightarrow> Inl e | Inr b \<Rightarrow> decode L b) of
              Inl e \<Rightarrow> Inr DECRYPTION_FAILED
            | Inr s \<Rightarrow> Inr s))"

text \<open>A library for evaluation: ASCII text, and a token that is the plaintext behind a tag byte.\<close>

definition toy_lib :: lib where
  "toy_lib = \<lparr> fernet_encrypt = (\<lambda>rnd b. 128 # b),
               fernet_decrypt = (\<lambda>t. case t of [] \<Rightarrow> Inl InvalidToken
                                     | x # b \<Rightarrow> if x = 128 then Inr b else Inl InvalidToken),
               encode = (\<lambda>s. if list_all (\<lambda>c. c < 128) s then Inr s else Inl UnicodeEncodeError),
               decode = (\<lambda>b. if list_all (\<lambda>c. c < 128) b then Inr b else Inl UnicodeDecodeError),
               json_dumps = (\<lambda>d. case d ''vendor_name'' of None \<Rightarrow> u ''{}'' | Some v \<Rightarrow> v) \<rparr>"

section \<open>\<open>storage.py\<close>: \<open>StorageEngine\<close>\<close>

text \<open>
  The table \<open>invoices\<close>: its rows in insertion order and the counter of \<open>AUTOINCREMENT\<close>.
  \<open>file_hash\<close> is declared \<open>UNIQUE\<close>.
\<close>

record row =
  rid :: nat
  file_hash :: str
  filename :: str
  upload_date :: str
  invoice_number :: str
  invoice_date :: str
  vendor_name :: str
  vendor_gstin :: str
  buyer_name :: str
  cgst :: str
  sgst :: str
  grand_total :: str
  currency :: str
  json_data_enc :: bytes
  status :: str

record db =
  rows :: "row list"
  seq :: nat

text \<open>\<open>data.get(key, default)\<close>\<close>

definition get :: "pydict \<Rightarrow> string \<Rightarrow> str \<Rightarrow> str" where
  "get d k dflt = (case d k of None \<Rightarrow> dflt | Some v \<Rightarrow> v)"

text \<open>
  \<open>save_invoice\<close>: the result and the table afterwards. \<open>now\<close> is the formatted
  \<open>datetime.now()\<close>. The \<open>INSERT\<close> raises \<open>sqlite3.IntegrityError\<close> when a row has the hash
  already; the method then returns \<open>False\<close> and nothing is committed.
\<close>

definition save_invoice ::
  "lib \<Rightarrow> nat \<Rightarrow> str \<Rightarrow> db \<Rightarrow> str \<Rightarrow> str \<Rightarrow> pydict \<Rightarrow> exn + (bool \<times> db)" where
  "save_invoice L rnd now d fname fhash data =
     (case encrypt_data L rnd (json_dumps L data) of
        Inl e \<Rightarrow> Inl e
      | Inr json_enc \<Rightarrow>
          (if list_ex (\<lambda>r. file_hash r = fhash) (rows d)
           then Inr (False, d)
           else Inr (True,
             \<lparr> rows = rows d @
                 [\<lparr> rid = Suc (seq d),
                    file_hash = fhash,
                    filename = fname,
                    upload_date = now,
                    invoice_number = get data ''invoice_number'' (u ''N/A''),
                    invoice_date = get data ''invoice_date'' (u ''N/A''),
                    vendor_name = get data ''vendor_name'' (u ''Unknown''),
                    vendor_gstin = get data ''vendor_gstin'' (u ''N/A''),
                    buyer_name = get data ''buyer_name'' (u ''Unknown''),
                    cgst = get data ''cgst'' (u ''0''),
                    sgst = get data ''sgst'' (u ''0''),
                    grand_total = get data ''grand_total'' (u ''0''),
                    currency = get data ''currency'' (u ''INR''),
                    json_data_enc = json_enc,
                    status = u ''PROCESSED'' \<rparr>],
               seq = Suc (seq d) \<rparr>)))"

section \<open>The label-proximity search in words\<close>

text \<open>
  The search of section 4.3 of the specification: scan the lines in order; a line that
  contains no keyword is passed over; a line with a keyword is skipped on a test that
  involves a percent sign; otherwise the last amount on the line that matches the amount
  grammar is the value; if the line has no amount, the same rule is applied to the line that
  follows, unless that line contains a percent sign. Amounts lose their thousands separators
  before they are returned.

  The skip test is written twice. \<open>claimed_label_search\<close> has it in the words of claim C1:
  the line contains a percent sign but no two-decimal amount, an amount being a match of the
  amount grammar. \<open>label_proximity_search\<close> has the test of the amended claim: the line
  contains a percent sign but nowhere a decimal point followed by two digits
  (\<open>has_two_decimals\<close>), whether or not these belong to an amount.
\<close>

definition has_percent :: "str \<Rightarrow> bool" where
  "has_percent line = contains (u ''%'') line"

definition has_two_decimals :: "ucd \<Rightarrow> str \<Rightarrow> bool" where
  "has_two_decimals U line = (search U False frac_pattern line \<noteq> None)"

definition last_amount :: "ucd \<Rightarrow> str \<Rightarrow> str option" where
  "last_amount U line =
     (case findall1 U AMOUNT_REGEX line of
        [] \<Rightarrow> None
      | m # matches \<Rightarrow> Some (strip_commas (last (m # matches))))"



section \<open>The tax identifier as the specification words it\<close>

text \<open>
  The specification, section 4.2: 2 digits, 5 letters, 4 digits, 1 letter, 1 alphanumeric,
  the literal \<open>Z\<close>, 1 alphanumeric. Letters are read as the capitals \<open>A-Z\<close>, as in the
  pattern of the code, and an alphanumeric as a digit \<open>0-9\<close> or a capital.
\<close>

definition claimed_tax_id_pattern :: re where
  "claimed_tax_id_pattern =
     Seq (Rep 2 2 digit)
    (Seq (Rep 5 5 (Atom (In [Rng 65 90])))
    (Seq (Rep 4 4 digit)
    (Seq (Rep 1 1 (Atom (In [Rng 65 90])))
    (Seq (Rep 1 1 (Atom (In [Rng 48 57, Rng 65 90])))
    (Seq (Atom (In [Chr 90]))
         (Rep 1 1 (Atom (In [Rng 48 57, Rng 65 90])))))))) "

text \<open>
  The shape that \<open>gst_pattern\<close> accepts, character by character; its thirteenth character
  is \<open>1-9\<close> or a capital. \<open>fits\<close> says that a string starts with the shape, \<open>first_tax_id\<close>
  is the leftmost such substring.
\<close>

definition tax_id_classes :: "cls list" where
  "tax_id_classes =
     replicate 2 (In [DigitI]) @ replicate 5 (In [Rng 65 90]) @ replicate 4 (In [DigitI])
     @ [In [Rng 65 90], In [Rng 49 57, Rng 65 90], In [Chr 90], In [Rng 48 57, Rng 65 90]]"

fun fits :: "ucd \<Rightarrow> cls list \<Rightarrow> str \<Rightarrow> bool" where
  "fits U [] s = True"
| "fits U (c # cs) [] = False"
| "fits U (c # cs) (x # xs) = (cls_match U False c x \<and> fits U cs xs)"

fun first_tax_id :: "ucd \<Rightarrow> str \<Rightarrow> str option" where
  "first_tax_id U [] = None"
| "first_tax_id U (x # xs) =
     (if fits U tax_id_classes (x # xs) then Some (take 15 (x # xs)) else first_tax_id U xs)"

section \<open>Notions for the claims about amounts\<close>

text \<open>
  The parts of \<open>AMOUNT_REGEX\<close>: the optional currency token, the captured amount, and what
  follows the first digit group in it. A digit is what \<open>\d\<close> matches. The character database
  is proper when no decimal digit is white space or one of the characters \<open>, . I N R\<close>, as
  in Unicode.
\<close>

definition digits_proper :: "ucd \<Rightarrow> bool" where
  "digits_proper U = (\<forall>c. decimal U c \<noteq> None \<longrightarrow> \<not> whitespace U c \<and> c \<notin> set (u '',.INR''))"

definition amount_prefix :: re where
  "amount_prefix = Seq (lit (u ''INR'')) (Star space)"

definition amount_core :: re where
  "amount_core =
     Seq (Rep 1 3 digit)
    (Seq (Star (Seq (lit (u '','')) (Rep 3 3 digit)))
    (Seq (lit (u ''.'')) (Rep 2 2 digit)))"

definition is_digit :: "ucd \<Rightarrow> nat \<Rightarrow> bool" where
  "is_digit U c = (decimal U c \<noteq> None)"

definition amount_rest :: re where
  "amount_rest = Seq (Star (Seq (lit (u '','')) (Rep 3 3 digit))) (Seq (lit (u ''.'')) (Rep 2 2 digit))"

text \<open>
  A comma group of an amount: a comma and three digits. The loop of the search goes on from a
  line that has a next line (\<open>continue\<close>, or the end of the loop body without \<open>return\<close>)
  when the line has no keyword, or is skipped on the percent test, or has no amount and the
  next line has a percent sign or no amount either.
\<close>

definition comma_group :: "ucd \<Rightarrow> str \<Rightarrow> bool" where
  "comma_group U m = (case m of [c, x, y, z] \<Rightarrow> c = 44 \<and> is_digit U x \<and> is_digit U y \<and> is_digit U z
                      | _ \<Rightarrow> False)"

definition passes_over :: "ucd \<Rightarrow> str list \<Rightarrow> str \<Rightarrow> str \<Rightarrow> bool" where
  "passes_over U kws line next_line =
     (\<not> has_keyword U kws line
      \<or> (has_percent line \<and> \<not> has_two_decimals U line)
      \<or> (last_amount U line = None \<and> (has_percent next_line \<or> last_amount U next_line = None)))"

section \<open>Notions for the claim about the fields of the record\<close>

text \<open>
  The fields of the extracted record, under the keys that \<open>_parse_deep_fields\<close> gives them
  (the tax identifier of the vendor is \<open>vendor_gstin\<close>); the test of the vendor loop for a
  line of boilerplate; the labels of the fallback search.
\<close>

definition extracted_invoice_fields :: "string list" where
  "extracted_invoice_fields =
     [''invoice_number'', ''invoice_date'', ''vendor_name'', ''vendor_gstin'', ''buyer_name'',
      ''cgst'', ''sgst'', ''grand_total'', ''currency'']"

definition boilerplate :: "ucd \<Rightarrow> str \<Rightarrow> bool" where
  "boilerplate U line =
     (contains (u ''TAXINVOICE'') (replace (u '' '') [] (upper U line))
      \<or> contains (u ''ORIGINAL'') (replace (u '' '') [] (upper U line)))"

definition subtotal_keys :: "str list" where
  "subtotal_keys = [u ''Subtotal'', u ''Sub Total'', u ''Total'']"

(*THEOREMS*)
section \<open>Facts about the record that \<open>_parse_deep_fields\<close> builds\<close>

text \<open>Every step of \<open>_parse_deep_fields\<close> assigns to one key and leaves the others alone.\<close>

lemma vendor_loop_other: "k \<noteq> ''vendor_name'' \<Longrightarrow> vendor_loop U ls data k = data k"
  by (induction ls) auto

lemma total_loop_other: "k \<noteq> ''grand_total'' \<Longrightarrow> total_loop U lines keys data k = data k"
  by (induction keys) auto

lemma set_amount_other: "k \<noteq> key \<Longrightarrow> set_amount U lines key kws data k = data k"
  by (simp add: set_amount_def split: option.splits)

lemma fallback_other: "k \<noteq> ''grand_total'' \<Longrightarrow> fallback U lines data k = data k"
  by (simp add: fallback_def split: sum.splits option.splits)

lemma set_gstin_other: "k \<noteq> ''vendor_gstin'' \<Longrightarrow> set_gstin U t data k = data k"
  by (simp add: set_gstin_def split: list.splits)

lemma set_buyer_other: "k \<noteq> ''buyer_name'' \<Longrightarrow> set_buyer U t data k = data k"
  by (simp add: set_buyer_def split: option.splits)

lemma set_invoice_number_other:
  "k \<noteq> ''invoice_number'' \<Longrightarrow> set_invoice_number U t data k = data k"
  by (simp add: set_invoice_number_def split: option.splits)

lemma set_invoice_date_other:
  "k \<noteq> ''invoice_date'' \<Longrightarrow> set_invoice_date U t data k = data k"
  by (simp add: set_invoice_date_def split: option.splits)

lemma set_vendor_alias_other: "k \<noteq> ''vendor'' \<Longrightarrow> set_vendor_alias data k = data k"
  by (simp add: set_vendor_alias_def)

lemmas frame = vendor_loop_other total_loop_other set_amount_other fallback_other
  set_gstin_other set_buyer_other set_invoice_number_other set_invoice_date_other
  set_vendor_alias_other

lemma parse_status: "parse_deep_fields U t ''status'' = None"
  by (simp add: parse_deep_fields_def Let_def frame data0_def)

lemma parse_error: "parse_deep_fields U t ''error'' = None"
  by (simp add: parse_deep_fields_def Let_def frame data0_def)

section \<open>The record store\<close>

text \<open>
  Claim C3. \<open>save_invoice\<close> is the insert keyed by the content hash. When the serialised record
  can be encrypted (no exception before the \<open>INSERT\<close>): it returns \<open>True\<close> (Inserted) and
  appends one row with that hash when no row has the hash; it returns \<open>False\<close>
  (DuplicateRejected) and leaves the whole table as it was when a row has it; the same hash
  twice gives \<open>True\<close> then \<open>False\<close>, whatever the second record is; and two different hashes
  with the same extracted record \<open>data1\<close> give \<open>True\<close> twice, two rows more.
\<close>

theorem C3_insert:
  assumes e1: "encrypt_data L rnd1 (json_dumps L data1) = Inr b1"
      and e2: "encrypt_data L rnd2 (json_dumps L data2) = Inr b2"
  shows "(h1 \<notin> file_hash ` set (rows d) \<longrightarrow>
            (\<exists>r. save_invoice L rnd1 now1 d f1 h1 data1
                    = Inr (True, \<lparr> rows = rows d @ [r], seq = Suc (seq d) \<rparr>) \<and> file_hash r = h1))
       \<and> (h1 \<in> file_hash ` set (rows d) \<longrightarrow>
            save_invoice L rnd1 now1 d f1 h1 data1 = Inr (False, d))
       \<and> (h1 \<notin> file_hash ` set (rows d) \<longrightarrow>
            (\<exists>d'. save_invoice L rnd1 now1 d f1 h1 data1 = Inr (True, d')
                 \<and> save_invoice L rnd2 now2 d' f2 h1 data2 = Inr (False, d')))
       \<and> (h1 \<notin> file_hash ` set (rows d) \<and> h2 \<notin> file_hash ` set (rows d) \<and> h1 \<noteq> h2 \<longrightarrow>
            (\<exists>d' d''. save_invoice L rnd1 now1 d f1 h1 data1 = Inr (True, d')
                 \<and> save_invoice L rnd2 now2 d' f2 h2 data1 = Inr (True, d'')
                 \<and> length (rows d'') = length (rows d) + 2))"
proof -
  have e3: "\<exists>b. encrypt_data L rnd2 (json_dumps L data1) = Inr b"
    using e1 by (auto simp: encrypt_data_def split: if_splits sum.splits)
  have ex: "list_ex (\<lambda>r. file_hash r = h) (rows x) = (h \<in> file_hash ` set (rows x))"
    for h and x :: db
    by (auto simp: list_ex_iff)
  show ?thesis
    using e1 e2 e3 by (auto simp: save_invoice_def ex)
qed

theorem C3_insert_witness:
  "(\<exists>d'. save_invoice toy_lib 0 (u ''2026-01-01 10:00'') \<lparr> rows = [], seq = 0 \<rparr>
            (u ''a.pdf'') (u ''0a1b'') data0 = Inr (True, d')
        \<and> save_invoice toy_lib 1 (u ''2026-01-01 10:05'') d'
            (u ''b.pdf'') (u ''0a1b'') empty_file = Inr (False, d'))
   \<and> (\<exists>d' d''. save_invoice toy_lib 0 (u ''2026-01-01 10:00'') \<lparr> rows = [], seq = 0 \<rparr>
            (u ''a.pdf'') (u ''0a1b'') data0 = Inr (True, d')
        \<and> save_invoice toy_lib 1 (u ''2026-01-01 10:05'') d'
            (u ''b.pdf'') (u ''ffff'') data0 = Inr (True, d'')
        \<and> length (rows d'') = 2)"
proof -
  have e1: "encrypt_data toy_lib 0 (json_dumps toy_lib data0) = Inr (128 # u ''Unknown'')"
    by (simp add: encrypt_data_def toy_lib_def data0_def u_def)
  have e2: "encrypt_data toy_lib 1 (json_dumps toy_lib empty_file) = Inr (128 # u ''{}'')"
    by (simp add: encrypt_data_def toy_lib_def empty_file_def u_def)
  have ne: "u ''0a1b'' \<noteq> u ''ffff''"
    by (simp add: u_def)
  have fresh: "h \<notin> file_hash ` set (rows \<lparr> rows = [], seq = 0 \<rparr>)" for h
    by simp
  from C3_insert [OF e1 e2, of "u ''0a1b''" "\<lparr> rows = [], seq = 0 \<rparr>"
      "u ''2026-01-01 10:00''" "u ''a.pdf''" "u ''2026-01-01 10:05''" "u ''b.pdf''" "u ''ffff''"]
    fresh ne
  show ?thesis by (auto simp: numeral_2_eq_2)
qed

section \<open>The cipher wrapper\<close>

text \<open>
  Claim C6. Let the cipher be correct (a token decrypts to its plaintext, and is not empty)
  and let the codec decode what it encoded. Then for every record the codec can encode,
  \<open>decrypt_data (encrypt_data record)\<close> is the record. A stored token that the cipher rejects
  (corrupted, or made with another key), or whose plaintext does not decode, gives the
  sentinel \<open>[DECRYPTION_FAILED]\<close>; and \<open>decrypt_data\<close> returns a string for every token,
  it never raises. (The empty token is the ciphertext of the empty record, claim C10.)
\<close>

theorem C6_round_trip:
  assumes cipher: "\<And>r b. fernet_decrypt L (fernet_encrypt L r b) = Inr b"
    and token: "\<And>r b. fernet_encrypt L r b \<noteq> []"
    and codec: "\<And>s b. encode L s = Inr b \<Longrightarrow> decode L b = Inr s"
  shows "(encode L record = Inr b \<longrightarrow>
            (\<exists>t. encrypt_data L rnd record = Inr t \<and> decrypt_data L t = Inr record))
       \<and> (blob \<noteq> [] \<and> (\<forall>p. fernet_decrypt L blob = Inr p \<longrightarrow> (\<exists>e. decode L p = Inl e)) \<longrightarrow>
            decrypt_data L blob = Inr DECRYPTION_FAILED)
       \<and> (\<exists>s. decrypt_data L blob = Inr s)"
proof (intro conjI impI)
  assume enc: "encode L record = Inr b"
  show "\<exists>t. encrypt_data L rnd record = Inr t \<and> decrypt_data L t = Inr record"
  proof (cases "record = []")
    case True
    then show ?thesis by (simp add: encrypt_data_def decrypt_data_def)
  next
    case False
    then have "encrypt_data L rnd record = Inr (fernet_encrypt L rnd b)"
      by (simp add: encrypt_data_def enc)
    moreover have "decrypt_data L (fernet_encrypt L rnd b) = Inr record"
      by (simp add: decrypt_data_def token cipher codec [OF enc])
    ultimately show ?thesis by simp
  qed
next
  assume "blob \<noteq> [] \<and> (\<forall>p. fernet_decrypt L blob = Inr p \<longrightarrow> (\<exists>e. decode L p = Inl e))"
  then show "decrypt_data L blob = Inr DECRYPTION_FAILED"
    by (auto simp: decrypt_data_def split: sum.splits)
next
  show "\<exists>s. decrypt_data L blob = Inr s"
    by (simp add: decrypt_data_def split: sum.splits)
qed

theorem C6_round_trip_witness:
  "(\<exists>t. encrypt_data toy_lib 0 (u ''vendor: Acme'') = Inr t
        \<and> decrypt_data toy_lib t = Inr (u ''vendor: Acme''))
   \<and> decrypt_data toy_lib [128, 255] = Inr DECRYPTION_FAILED
   \<and> decrypt_data toy_lib [7, 7] = Inr DECRYPTION_FAILED"
proof -
  have cipher: "\<And>r b. fernet_decrypt toy_lib (fernet_encrypt toy_lib r b) = Inr b"
    by (simp add: toy_lib_def)
  have token: "\<And>r b. fernet_encrypt toy_lib r b \<noteq> []"
    by (simp add: toy_lib_def)
  have codec: "\<And>s b. encode toy_lib s = Inr b \<Longrightarrow> decode toy_lib b = Inr s"
    by (auto simp: toy_lib_def split: if_splits)
  have enc: "encode toy_lib (u ''vendor: Acme'') = Inr (u ''vendor: Acme'')"
    by (simp add: toy_lib_def u_def)
  have a: "[128, 255] \<noteq> ([]::nat list) \<and>
    (\<forall>p. fernet_decrypt toy_lib [128, 255] = Inr p \<longrightarrow> (\<exists>e. decode toy_lib p = Inl e))"
    by (simp add: toy_lib_def)
  have b: "[7, 7] \<noteq> ([]::nat list) \<and>
    (\<forall>p. fernet_decrypt toy_lib [7, 7] = Inr p \<longrightarrow> (\<exists>e. decode toy_lib p = Inl e))"
    by (simp add: toy_lib_def)
  from C6_round_trip [of toy_lib "u ''vendor: Acme''" "u ''vendor: Acme''" 0 "[128, 255]",
         OF cipher token codec]
       C6_round_trip [of toy_lib "u ''vendor: Acme''" "u ''vendor: Acme''" 0 "[7, 7]",
         OF cipher token codec]
       enc a b
  show ?thesis by blast
qed

text \<open>
  Claim C10. Whatever the cipher is, \<open>encrypt_data\<close> of the empty string is the empty byte
  string: the cipher takes no part in the result. \<open>decrypt_data\<close> of the empty byte string is
  the empty string and not the sentinel. So the round trip holds for the empty record, and
  its stored form is the empty byte string itself.
\<close>

theorem C10_empty_record:
  "encrypt_data L rnd [] = Inr []
   \<and> encrypt_data L rnd [] = encrypt_data L' rnd' []
   \<and> decrypt_data L [] = Inr []
   \<and> decrypt_data L [] \<noteq> Inr DECRYPTION_FAILED
   \<and> (case encrypt_data L rnd [] of Inl e \<Rightarrow> False | Inr t \<Rightarrow> decrypt_data L t = Inr [])"
  by (simp add: encrypt_data_def decrypt_data_def DECRYPTION_FAILED_def u_def)

section \<open>The empty document\<close>

text \<open>
  Claim C8. \<open>process_invoice\<close> answers a document whose recovered text is empty with the
  error value \<open>{"status": "Error", "error": "Empty File"}\<close> and extracts nothing. For every
  other text the result is the extracted record: it has no \<open>status\<close> and no \<open>error\<close> key and
  is not the error value.
\<close>

theorem C8_empty_document:
  "(t = [] \<longrightarrow> process_invoice U t = empty_file)
   \<and> (t \<noteq> [] \<longrightarrow> process_invoice U t = parse_deep_fields U (normalize_currency t)
                 \<and> process_invoice U t ''status'' = None
                 \<and> process_invoice U t ''error'' = None
                 \<and> process_invoice U t \<noteq> empty_file)"
proof -
  have "parse_deep_fields U (normalize_currency t) \<noteq> empty_file"
  proof
    assume "parse_deep_fields U (normalize_currency t) = empty_file"
    then have "parse_deep_fields U (normalize_currency t) ''status'' = empty_file ''status''"
      by simp
    then show False by (simp add: parse_status empty_file_def)
  qed
  then show ?thesis
    by (simp add: process_invoice_def parse_status parse_error)
qed

theorem C8_empty_document_witness:
  "process_invoice ascii [] = empty_file
   \<and> process_invoice ascii (u ''Acme'') ''status'' = None
   \<and> process_invoice ascii (u ''Acme'') \<noteq> empty_file
   \<and> process_invoice ascii [10] \<noteq> empty_file"
proof -
  have n1: "u ''Acme'' \<noteq> []" by (simp add: u_def)
  have n2: "[10] \<noteq> ([]::str)" by simp
  from C8_empty_document [of "[]" ascii] have a: "process_invoice ascii [] = empty_file"
    by blast
  from C8_empty_document [of "u ''Acme''" ascii] n1
  have b: "process_invoice ascii (u ''Acme'') ''status'' = None
           \<and> process_invoice ascii (u ''Acme'') \<noteq> empty_file"
    by blast
  from C8_empty_document [of "[10]" ascii] n2
  have c: "process_invoice ascii [10] \<noteq> empty_file"
    by blast
  from a b c show ?thesis by blast
qed

section \<open>The text normalizer\<close>

text \<open>Facts about \<open>str.replace\<close>: when a pattern cannot occur in its result.\<close>

lemma contains_Nil_pat [simp]: "contains [] s"
  by (cases s) auto

lemma contains_drop: "contains p (drop n s) \<Longrightarrow> contains p s"
proof (induction s arbitrary: n)
  case Nil then show ?case by simp
next
  case (Cons c cs)
  show ?case
  proof (cases n)
    case 0 with Cons.prems show ?thesis by simp
  next
    case (Suc m)
    with Cons.prems have "contains p (drop m cs)" by simp
    then have "contains p cs" by (rule Cons.IH)
    then show ?thesis by simp
  qed
qed

lemma replace_absent: "\<not> contains old s \<Longrightarrow> replace old new s = s"
proof (induction old new s rule: replace.induct)
  case (1 new s) then show ?case by simp
next
  case (2 o1 os new) then show ?case by simp
next
  case (3 o1 os new c cs)
  then show ?case by auto
qed

lemma replace_match:
  "prefix (o1 # os) (c # cs) \<Longrightarrow>
   replace (o1 # os) new (c # cs) = new @ replace (o1 # os) new (drop (length (o1 # os)) (c # cs))"
  by simp

lemma replace_nomatch:
  "\<not> prefix (o1 # os) (c # cs) \<Longrightarrow> replace (o1 # os) new (c # cs) = c # replace (o1 # os) new cs"
  by auto

lemma prefix_replace:
  "new \<noteq> [] \<Longrightarrow> set q \<inter> set new = {} \<Longrightarrow> old \<noteq> [] \<Longrightarrow>
   prefix q (replace old new s) \<Longrightarrow> prefix q s"
proof (induction old new s arbitrary: q rule: replace.induct)
  case (1 new s) then show ?case by simp
next
  case (2 o1 os new) then show ?case by simp
next
  case (3 o1 os new c cs)
  show ?case
  proof (cases "prefix (o1 # os) (c # cs)")
    case True
    obtain n ns where new: "new = n # ns" using "3.prems"(1) by (cases new) auto
    from "3.prems"(4) have "prefix q (n # ns @ replace (o1 # os) new (drop (length (o1 # os)) (c # cs)))"
      unfolding replace_match [OF True] by (simp add: new)
    then have "q = []" using "3.prems"(2) by (auto simp: prefix_Cons new)
    then show ?thesis by simp
  next
    case False
    from "3.prems"(4) have p: "prefix q (c # replace (o1 # os) new cs)"
      unfolding replace_nomatch [OF False] .
    show ?thesis
    proof (cases q)
      case Nil then show ?thesis by simp
    next
      case (Cons x q')
      with p have x: "x = c" and p': "prefix q' (replace (o1 # os) new cs)" by auto
      have "set q' \<inter> set new = {}" using "3.prems"(2) Cons by auto
      from "3.IH"(2) [OF False "3.prems"(1) this _ p'] have "prefix q' cs" by simp
      then show ?thesis using Cons x by simp
    qed
  qed
qed

lemma contains_Cons_iff: "contains p (c # cs) = (prefix p (c # cs) \<or> contains p cs)"
  by simp

lemma prefix_step_replace:
  assumes new: "new \<noteq> []" and tl: "set (tl p) \<inter> set new = {}"
    and pre: "prefix p (c # replace (o1 # os) new cs)"
  shows "prefix p (c # cs)"
proof (cases p)
  case Nil then show ?thesis by simp
next
  case (Cons x q)
  with pre have x: "x = c" and q: "prefix q (replace (o1 # os) new cs)" by auto
  from tl Cons have "set q \<inter> set new = {}" by simp
  from prefix_replace [OF new this _ q] have "prefix q cs" by simp
  with Cons x show ?thesis by simp
qed

lemma replace_preserves_absent:
  "new \<noteq> [] \<Longrightarrow> set (tl p) \<inter> set new = {} \<Longrightarrow> (\<forall>r. contains p (new @ r) \<longrightarrow> contains p r) \<Longrightarrow>
   old \<noteq> [] \<Longrightarrow> \<not> contains p s \<Longrightarrow> \<not> contains p (replace old new s)"
proof (induction old new s rule: replace.induct)
  case (1 new s) then show ?case by simp
next
  case (2 o1 os new) then show ?case by simp
next
  case (3 o1 os new c cs)
  note new = "3.prems"(1) and tl = "3.prems"(2) and ins = "3.prems"(3) and np = "3.prems"(5)
  show ?case
  proof (cases "prefix (o1 # os) (c # cs)")
    case True
    have "\<not> contains p (drop (length (o1 # os)) (c # cs))"
      using np contains_drop by blast
    from "3.IH"(1) [OF True new tl ins _ this]
    have "\<not> contains p (replace (o1 # os) new (drop (length (o1 # os)) (c # cs)))" by simp
    then show ?thesis unfolding replace_match [OF True] using ins by blast
  next
    case False
    from np have npre: "\<not> prefix p (c # cs)" and nc: "\<not> contains p cs" by auto
    from "3.IH"(2) [OF False new tl ins _ nc]
    have a: "\<not> contains p (replace (o1 # os) new cs)" by simp
    have b: "\<not> prefix p (c # replace (o1 # os) new cs)"
      using prefix_step_replace [OF new tl] npre by blast
    show ?thesis unfolding replace_nomatch [OF False] using a b by simp
  qed
qed

lemma replace_removes:
  "new \<noteq> [] \<Longrightarrow> set (tl old) \<inter> set new = {} \<Longrightarrow> (\<forall>r. contains old (new @ r) \<longrightarrow> contains old r) \<Longrightarrow>
   old \<noteq> [] \<Longrightarrow> \<not> contains old (replace old new s)"
proof (induction old new s rule: replace.induct)
  case (1 new s) then show ?case by simp
next
  case (2 o1 os new) then show ?case by simp
next
  case (3 o1 os new c cs)
  note new = "3.prems"(1) and tl = "3.prems"(2) and ins = "3.prems"(3)
  show ?case
  proof (cases "prefix (o1 # os) (c # cs)")
    case True
    from "3.IH"(1) [OF True new tl ins]
    have "\<not> contains (o1 # os) (replace (o1 # os) new (drop (length (o1 # os)) (c # cs)))" by simp
    then show ?thesis unfolding replace_match [OF True] using ins by blast
  next
    case False
    from "3.IH"(2) [OF False new tl ins]
    have a: "\<not> contains (o1 # os) (replace (o1 # os) new cs)" by simp
    have b: "\<not> prefix (o1 # os) (c # replace (o1 # os) new cs)"
      using prefix_step_replace [OF new tl] False by blast
    show ?thesis unfolding replace_nomatch [OF False] using a b by simp
  qed
qed

lemma contains_prefix_pat: "contains (p @ q) s \<Longrightarrow> contains p s"
  by (induction s) (auto simp: append_prefixD)

lemma INR: "u ''INR '' = [73, 78, 82, 32]" by (simp add: u_def)
lemma Rs: "u ''Rs'' = [82, 115]" by (simp add: u_def)
lemma Rsdot: "u ''Rs.'' = [82, 115, 46]" by (simp add: u_def)

lemma ins_rupee: "contains [8377] ([73, 78, 82, 32] @ r) \<Longrightarrow> contains [8377] r"
  by simp
lemma ins_Rs: "contains [82, 115] ([73, 78, 82, 32] @ r) \<Longrightarrow> contains [82, 115] r"
  by simp
lemma ins_mis: "contains [226, 8218, 185] ([73, 78, 82, 32] @ r) \<Longrightarrow> contains [226, 8218, 185] r"
  by simp

text \<open>
  Claim C5. The currency normalization of \<open>process_invoice\<close> (the rupee sign, \<open>Rs.\<close>, \<open>Rs\<close> and
  the mis-decoded rupee sign, each replaced by \<open>INR\<close> and a space) is idempotent: applied to
  its own result it changes nothing, for every text.
\<close>

theorem C5_normalize_idempotent:
  "normalize_currency (normalize_currency t) = normalize_currency t"
proof -
  let ?new = "[73, 78, 82, 32] :: str"
  let ?t1 = "replace [8377] ?new t"
  let ?t2 = "replace [82, 115, 46] ?new ?t1"
  let ?t3 = "replace [82, 115] ?new ?t2"
  let ?t4 = "replace [226, 8218, 185] ?new ?t3"
  have n: "normalize_currency t = ?t4" by (simp add: normalize_currency_def INR Rs Rsdot)
  have r1: "\<not> contains [8377] ?t1" by (rule replace_removes) (use ins_rupee in auto)
  have r2: "\<not> contains [8377] ?t2" by (rule replace_preserves_absent [OF _ _ _ _ r1]) (use ins_rupee in auto)
  have r3: "\<not> contains [8377] ?t3" by (rule replace_preserves_absent [OF _ _ _ _ r2]) (use ins_rupee in auto)
  have r4: "\<not> contains [8377] ?t4" by (rule replace_preserves_absent [OF _ _ _ _ r3]) (use ins_rupee in auto)
  have s3: "\<not> contains [82, 115] ?t3" by (rule replace_removes) (use ins_Rs in auto)
  have s4: "\<not> contains [82, 115] ?t4" by (rule replace_preserves_absent [OF _ _ _ _ s3]) (use ins_Rs in auto)
  have d4: "\<not> contains [82, 115, 46] ?t4" using s4 contains_prefix_pat [of "[82, 115]" "[46]" ?t4] by auto
  have m4: "\<not> contains [226, 8218, 185] ?t4" by (rule replace_removes) (use ins_mis in auto)
  have "normalize_currency ?t4 = ?t4"
    by (simp add: normalize_currency_def INR Rs Rsdot replace_absent [OF r4] replace_absent [OF d4]
        replace_absent [OF s4] replace_absent [OF m4] del: replace.simps)
  then show ?thesis by (simp only: n)
qed

section \<open>The amount search\<close>

lemma eas_loop_past: "length lines \<le> i \<Longrightarrow> eas_loop U lines kws i = None"
  by (subst eas_loop.simps) simp

lemma last_amount_case:
  "(case findall1 U AMOUNT_REGEX l of
      [] \<Rightarrow> X
    | m # matches \<Rightarrow> Some (strip_commas (last (m # matches))))
   = (case last_amount U l of Some a \<Rightarrow> Some a | None \<Rightarrow> X)"
  by (simp add: last_amount_def split: list.splits)

lemma no_two_decimals: "(search U False frac_pattern l = None) = (\<not> has_two_decimals U l)"
  by (cases "search U False frac_pattern l") (auto simp: has_two_decimals_def)

lemma eas_loop_step:
  "i < length lines \<Longrightarrow>
   eas_loop U lines kws i =
     (if \<not> has_keyword U kws (lines ! i) then eas_loop U lines kws (Suc i)
      else if has_percent (lines ! i) \<and> \<not> has_two_decimals U (lines ! i)
      then eas_loop U lines kws (Suc i)
      else (case last_amount U (lines ! i) of
              Some a \<Rightarrow> Some a
            | None \<Rightarrow>
                (if Suc i < length lines then
                   (if has_percent (lines ! Suc i) then eas_loop U lines kws (Suc i)
                    else (case last_amount U (lines ! Suc i) of
                            Some a \<Rightarrow> Some a
                          | None \<Rightarrow> eas_loop U lines kws (Suc i)))
                 else eas_loop U lines kws (Suc i))))"
  apply (subst eas_loop.simps)
  apply (simp only: last_amount_case no_two_decimals has_percent_def [symmetric]
      Suc_eq_plus1 [symmetric] if_True)
  done




section \<open>The vendor tax identifier\<close>

text \<open>A pattern made of single characters and exact repetitions matches in one way.\<close>

lemma rep_step:
  assumes f: "\<And>g s. f (g, s) = (case s of [] \<Rightarrow> [] | x # xs \<Rightarrow> if P x then [(g, xs)] else [])"
  shows "rep f n n (g, s) =
     (if n \<le> length s \<and> list_all P (take n s) then [(g, drop n s)] else [])"
proof (induction n arbitrary: s)
  case 0 then show ?case by simp
next
  case (Suc n)
  show ?case by (cases s) (simp_all add: f Suc)
qed

lemma ms_atom_eq:
  "ms U ic (Atom c) (g, s) = (case s of [] \<Rightarrow> [] | x # xs \<Rightarrow> if cls_match U ic c x then [(g, xs)] else [])"
  by (cases s) simp_all

lemma ms_Rep_atom:
  "ms U ic (Rep n n (Atom c)) (g, s) =
     (if n \<le> length s \<and> list_all (cls_match U ic c) (take n s) then [(g, drop n s)] else [])"
  unfolding ms.simps(8) by (rule rep_step) (rule ms_atom_eq)

lemma ms_Seq_Rep_atom:
  "ms U ic (Seq (Rep n n (Atom c)) r) (g, s) =
     (if n \<le> length s \<and> list_all (cls_match U ic c) (take n s) then ms U ic r (g, drop n s) else [])"
  unfolding ms.simps(3) ms_Rep_atom by auto

lemma ms_Seq_atom:
  "ms U ic (Seq (Atom c) r) (g, s) =
     (if 1 \<le> length s \<and> list_all (cls_match U ic c) (take 1 s) then ms U ic r (g, drop 1 s) else [])"
  by (cases s) simp_all

lemma fits_replicate:
  "fits U (replicate n c @ cs) s =
     (n \<le> length s \<and> list_all (cls_match U False c) (take n s) \<and> fits U cs (drop n s))"
proof (induction n arbitrary: s)
  case 0 then show ?case by simp
next
  case (Suc n)
  show ?case by (cases s) (auto simp: Suc)
qed

lemma fits_one:
  "fits U (c # cs) s = (1 \<le> length s \<and> list_all (cls_match U False c) (take 1 s) \<and> fits U cs (drop 1 s))"
  by (cases s) auto

lemma ms_gst:
  "ms U False gst_pattern (g, s) = (if fits U tax_id_classes s then [(g, drop 15 s)] else [])"
  unfolding gst_pattern_def tax_id_classes_def digit_def
  apply (simp only: ms_Seq_Rep_atom ms_Seq_atom ms_Rep_atom fits_replicate fits_one append.simps fits.simps(1) drop_drop)
  apply simp
  done


lemma fits_length: "fits U cs s \<Longrightarrow> length cs \<le> length s"
  by (induction U cs s rule: fits.induct) auto

lemma match_here_gst:
  "match_here U False gst_pattern s = (if fits U tax_id_classes s then Some ([], drop 15 s) else None)"
  by (simp add: match_here_def ms_gst)

lemma tax_id_classes_length: "length tax_id_classes = 15"
  by (simp add: tax_id_classes_def)

lemma findall0_gst_hd:
  "(case findall0 U gst_pattern s of [] \<Rightarrow> None | g # all_gst \<Rightarrow> Some g) = first_tax_id U s"
proof (induction s)
  case Nil
  have "\<not> fits U tax_id_classes []"
    using fits_length [of U tax_id_classes "[]"] by (auto simp: tax_id_classes_length)
  then show ?case by (simp add: findall0_def match_here_gst)
next
  case (Cons x xs)
  show ?case
  proof (cases "fits U tax_id_classes (x # xs)")
    case True
    from fits_length [OF True] have l: "15 \<le> length (x # xs)" by (simp add: tax_id_classes_length)
    then have "length (x # xs) - length (drop 15 (x # xs)) = 15" by simp
    then have t: "take (length (x # xs) - length (drop 15 (x # xs))) (x # xs) = take 15 (x # xs)"
      by (simp only:)
    have lt: "length (drop 15 (x # xs)) < length (x # xs)" by simp
    show ?thesis
      unfolding findall0_def finditer.simps match_here_gst
      using True lt t by (simp add: group_def)
  next
    case False
    then show ?thesis
      using Cons unfolding findall0_def finditer.simps match_here_gst by simp
  qed
qed

text \<open>
  Claim C7, amended. The field \<open>vendor_gstin\<close> is the leftmost substring of the text of the
  shape 2 digits, 5 capitals \<open>A-Z\<close>, 4 digits, 1 capital, 1 character that is \<open>1-9\<close> or a
  capital, the literal \<open>Z\<close>, 1 character that is \<open>0-9\<close> or a capital; it is \<open>N/A\<close> when no
  substring has the shape.
\<close>

theorem C7_vendor_tax_id:
  "parse_deep_fields U t ''vendor_gstin'' =
     Some (case first_tax_id U t of None \<Rightarrow> u ''N/A'' | Some g \<Rightarrow> g)
   \<and> parse_deep_fields ascii (u ''GSTIN 22AAAAA0000A1Z5 x'') ''vendor_gstin''
       = Some (u ''22AAAAA0000A1Z5'')"
proof (rule conjI)
  show "parse_deep_fields ascii (u ''GSTIN 22AAAAA0000A1Z5 x'') ''vendor_gstin''
       = Some (u ''22AAAAA0000A1Z5'')"
    by code_simp
next
  have "parse_deep_fields U t ''vendor_gstin'' =
          set_gstin U t (vendor_loop U (take 10 (lines_of U t)) data0) ''vendor_gstin''"
    by (simp add: parse_deep_fields_def Let_def frame)
  also have "\<dots> = Some (case first_tax_id U t of None \<Rightarrow> u ''N/A'' | Some g \<Rightarrow> g)"
  proof (cases "findall0 U gst_pattern t")
    case Nil
    with findall0_gst_hd [of U t] have "first_tax_id U t = None" by simp
    with Nil show ?thesis by (simp add: set_gstin_def frame data0_def)
  next
    case (Cons g all_gst)
    with findall0_gst_hd [of U t] have "first_tax_id U t = Some g" by simp
    with Cons show ?thesis by (simp add: set_gstin_def)
  qed
  finally show "parse_deep_fields U t ''vendor_gstin'' =
     Some (case first_tax_id U t of None \<Rightarrow> u ''N/A'' | Some g \<Rightarrow> g)" .
qed

text \<open>
  The claim as stated lets the thirteenth character be any alphanumeric. The text
  \<open>22AAAAA0000A0Z5\<close>, with \<open>0\<close> there, matches the pattern of the claim, and the field
  stays \<open>N/A\<close>.
\<close>

theorem C7_counterexample:
  "findall0 ascii claimed_tax_id_pattern (u ''22AAAAA0000A0Z5'') = [u ''22AAAAA0000A0Z5'']
   \<and> parse_deep_fields ascii (u ''22AAAAA0000A0Z5'') ''vendor_gstin'' = Some (u ''N/A'')"
  by code_simp

section \<open>Amounts with a long integer part\<close>

text \<open>From here on the matcher is unfolded by the lemmas below, one constructor at a time.\<close>

declare ms.simps [simp del]
declare lit.simps [simp del]

lemma u_comma: "u '','' = [44]" by (simp add: u_def)
lemma u_dot: "u ''.'' = [46]" by (simp add: u_def)
lemma u_INR: "u ''INR'' = [73, 78, 82]" by (simp add: u_def)

lemma rep00: "rep f 0 0 = (\<lambda>s. [s])"
  by (rule ext) simp

lemma rep01: "rep f 0 (Suc 0) = (\<lambda>s. f s @ [s])"
  by (rule ext) (simp add: rep00)

lemma rep02: "rep f 0 (Suc (Suc 0)) = (\<lambda>s1. concat (map (\<lambda>s2. f s2 @ [s2]) (f s1)) @ [s1])"
  by (rule ext) (simp add: rep01)

lemma rep13: "rep f (Suc 0) 3 st = concat (map (\<lambda>s1. concat (map (\<lambda>s2. f s2 @ [s2]) (f s1)) @ [s1]) (f st))"
  by (simp add: numeral_3_eq_3 rep02)

lemma rep11: "rep f (Suc 0) (Suc 0) = f"
  by (rule ext) (simp add: rep00)

lemma rep22: "rep f 2 2 st = concat (map f (f st))"
  by (simp add: numeral_2_eq_2 rep11)

lemma ms_Seq: "ms U ic (Seq a b) st = concat (map (ms U ic b) (ms U ic a st))"
  by (simp add: ms.simps)

lemma ms_Opt: "ms U ic (Opt a) st = ms U ic a st @ [st]"
  by (simp add: ms.simps)

lemma ms_Grp: "ms U ic (Grp n a) (g, s) =
   map (\<lambda>st'. ((n, take (length s - length (snd st')) s) # fst st', snd st')) (ms U ic a (g, s))"
  by (simp add: ms.simps)

lemma ms_Star: "ms U ic (Star a) (g, s) = star (ms U ic a) (length s) (g, s)"
  by (simp add: ms.simps)

lemma ms_Rep: "ms U ic (Rep lo hi a) st = rep (ms U ic a) lo hi st"
  by (simp add: ms.simps)

lemma ms_Eps: "ms U ic Eps st = [st]"
  by (simp add: ms.simps)

lemma ms_digit_Cons: "ms U ic digit (g, x # s) = (if is_digit U x then [(g, s)] else [])"
  by (simp add: ms.simps digit_def is_digit_def)

lemma ms_digit_Nil: "ms U ic digit (g, []) = []"
  by (simp add: ms.simps digit_def)

lemma ms_space_Cons: "ms U ic space (g, x # s) = (if whitespace U x then [(g, s)] else [])"
  by (simp add: ms.simps space_def)

lemma ms_space_Nil: "ms U ic space (g, []) = []"
  by (simp add: ms.simps space_def)

lemma ms_lit_Cons:
  "ms U False (lit (p # ps)) (g, s) =
     (case s of [] \<Rightarrow> [] | x # xs \<Rightarrow> if x = p then ms U False (lit ps) (g, xs) else [])"
  by (cases s) (simp_all add: ms.simps lit.simps)

lemma ms_lit: "ms U False (lit p) (g, s) = (if prefix p s then [(g, drop (length p) s)] else [])"
proof (induction p arbitrary: s)
  case Nil then show ?case by (simp add: ms.simps lit.simps)
next
  case (Cons a p)
  show ?case unfolding ms_lit_Cons by (cases s) (auto simp: Cons)
qed

text \<open>The states after a greedy run of white space: what was read is white space.\<close>

lemma star_space:
  "(g', s') \<in> set (star (ms U ic space) n (g, s)) \<Longrightarrow>
   g' = g \<and> (\<exists>k. s' = drop k s \<and> list_all (whitespace U) (take k s))"
proof (induction n arbitrary: s)
  case 0
  then show ?case by (auto intro: exI [of _ 0])
next
  case (Suc n)
  show ?case
  proof (cases s)
    case Nil
    with Suc.prems show ?thesis by (auto simp: ms_space_Nil ms_space_Cons)
  next
    case (Cons x xs)
    show ?thesis
    proof (cases "whitespace U x")
      case False
      with Suc.prems Cons show ?thesis by (auto simp: ms_space_Cons intro: exI [of _ 0])
    next
      case True
      with Suc.prems Cons have "(g', s') \<in> set (star (ms U ic space) n (g, xs)) \<or> (g', s') = (g, s)"
        by (auto simp: ms_space_Nil ms_space_Cons)
      then show ?thesis
      proof
        assume "(g', s') \<in> set (star (ms U ic space) n (g, xs))"
        from Suc.IH [OF this] obtain k where "g' = g" "s' = drop k xs" "list_all (whitespace U) (take k xs)"
          by blast
        then show ?thesis using Cons True by (auto intro!: exI [of _ "Suc k"])
      next
        assume "(g', s') = (g, s)"
        then show ?thesis by (auto intro: exI [of _ 0])
      qed
    qed
  qed
qed


lemma AMOUNT_split: "AMOUNT_REGEX = Seq (Opt amount_prefix) (Grp 1 amount_core)"
  by (simp add: AMOUNT_REGEX_def amount_prefix_def amount_core_def)

lemma star_none: "f st = [] \<Longrightarrow> star f n st = [st]"
  by (cases n) simp_all

lemma digit_not_punct:
  "digits_proper U \<Longrightarrow> is_digit U c \<Longrightarrow>
   c \<noteq> 44 \<and> c \<noteq> 46 \<and> c \<noteq> 73 \<and> c \<noteq> 78 \<and> c \<noteq> 82 \<and> \<not> whitespace U c"
  by (auto simp: digits_proper_def is_digit_def u_def)

lemma comma_group_none:
  "x \<noteq> 44 \<Longrightarrow> ms U False (Seq (lit (u '','')) (Rep 3 3 digit)) (g, x # s) = []"
  by (simp add: ms_Seq ms_lit u_comma u_dot)

lemma tail_dot: "x \<noteq> 46 \<Longrightarrow> ms U False (Seq (lit (u ''.'')) (Rep 2 2 digit)) (g, x # s) = []"
  by (simp add: ms_Seq ms_lit u_comma u_dot)

lemma rest_digit:
  assumes "digits_proper U" "is_digit U x"
  shows "ms U False amount_rest (g, x # s) = []"
proof -
  from digit_not_punct [OF assms] have x: "x \<noteq> 44" "x \<noteq> 46" by auto
  have "ms U False (Star (Seq (lit (u '','')) (Rep 3 3 digit))) (g, x # s) = [(g, x # s)]"
    unfolding ms_Star by (rule star_none) (rule comma_group_none [OF x(1)])
  then show ?thesis
    by (simp add: amount_rest_def ms_Seq [of U False "Star _"] tail_dot [OF x(2)])
qed

lemma rest_dot:
  assumes "is_digit U d1" "is_digit U d2"
  shows "ms U False amount_rest (g, 46 # d1 # d2 # s) = [(g, s)]"
proof -
  have "ms U False (Star (Seq (lit (u '','')) (Rep 3 3 digit))) (g, 46 # d1 # d2 # s)
          = [(g, 46 # d1 # d2 # s)]"
    unfolding ms_Star by (rule star_none) (rule comma_group_none, simp)
  moreover have "ms U False (Seq (lit (u ''.'')) (Rep 2 2 digit)) (g, 46 # d1 # d2 # s) = [(g, s)]"
    using assms by (simp add: ms_Seq ms_lit u_dot ms_Rep rep22 ms_digit_Cons)
  ultimately show ?thesis
    by (simp add: amount_rest_def ms_Seq [of U False "Star _"])
qed

lemma core_split: "amount_core = Seq (Rep 1 3 digit) amount_rest"
  by (simp add: amount_core_def amount_rest_def)

lemma core_nondigit: "\<not> is_digit U x \<Longrightarrow> ms U False amount_core (g, x # s) = []"
  by (simp add: core_split ms_Seq ms_Rep rep13 ms_digit_Cons)

lemma core_empty: "ms U False amount_core (g, []) = []"
  by (simp add: core_split ms_Seq ms_Rep rep13 ms_digit_Nil)

lemma core_long:
  assumes U: "digits_proper U" and d: "is_digit U a" "is_digit U b" "is_digit U c" "is_digit U d"
  shows "ms U False amount_core (g, a # b # c # d # s) = []"
  using d by (simp add: core_split ms_Seq ms_Rep rep13 ms_digit_Cons rest_digit [OF U])

lemma core_three:
  assumes U: "digits_proper U" and d: "is_digit U a" "is_digit U b" "is_digit U c"
    "is_digit U d1" "is_digit U d2"
  shows "ms U False amount_core (g, a # b # c # 46 # d1 # d2 # s) = [(g, s)]"
  using d by (simp add: core_split ms_Seq ms_Rep rep13 ms_digit_Cons rest_digit [OF U] rest_dot)


lemma prefix_outcomes:
  assumes "(g', s') \<in> set (ms U False (Opt amount_prefix) (g, s))"
  shows "g' = g \<and> (\<exists>k. s' = drop k s \<and> list_all (\<lambda>c. whitespace U c \<or> c \<in> {73, 78, 82}) (take k s))"
proof (cases "(g', s') = (g, s)")
  case True
  then show ?thesis by (auto intro: exI [of _ 0])
next
  case False
  with assms have m: "(g', s') \<in> set (ms U False amount_prefix (g, s))"
    by (auto simp: ms_Opt)
  then have p: "prefix [73, 78, 82] s"
    and st: "(g', s') \<in> set (star (ms U False space) (length (drop 3 s)) (g, drop 3 s))"
    by (auto simp: amount_prefix_def ms_Seq ms_lit u_INR ms_Star numeral_3_eq_3 split: if_splits)
  from star_space [OF st] obtain k where g: "g' = g" and k: "s' = drop k (drop 3 s)"
    and w: "list_all (whitespace U) (take k (drop 3 s))" by blast
  from p have t3: "take 3 s = [73, 78, 82]" by (auto simp: prefix_def)
  have "take (3 + k) s = take 3 s @ take k (drop 3 s)" by (rule take_add)
  with t3 w have "list_all (\<lambda>c. whitespace U c \<or> c \<in> {73, 78, 82}) (take (3 + k) s)"
    by (auto simp: list_all_iff)
  moreover have "s' = drop (3 + k) s" using k by (simp add: add.commute)
  ultimately show ?thesis using g by blast
qed

lemma match_here_none:
  assumes U: "digits_proper U"
    and core: "\<And>k g. list_all (\<lambda>c. \<not> is_digit U c) (take k s) \<Longrightarrow> ms U False amount_core (g, drop k s) = []"
  shows "match_here U False AMOUNT_REGEX s = None"
proof -
  have "ms U False (Grp 1 amount_core) st = []" if "st \<in> set (ms U False (Opt amount_prefix) ([], s))" for st
  proof -
    obtain g' s' where st: "st = (g', s')" by (cases st)
    from prefix_outcomes [OF that [unfolded st]] obtain k where k: "s' = drop k s"
      and j: "list_all (\<lambda>c. whitespace U c \<or> c \<in> {73, 78, 82}) (take k s)" by blast
    from j have "list_all (\<lambda>c. \<not> is_digit U c) (take k s)"
      using digit_not_punct [OF U] by (auto simp: list_all_iff)
    from core [OF this] show ?thesis by (simp add: st k ms_Grp)
  qed
  then have "ms U False AMOUNT_REGEX ([], s) = []"
    by (simp add: AMOUNT_split ms_Seq)
  then show ?thesis by (simp add: match_here_def)
qed

lemma take_nondigit_le:
  assumes "list_all (\<lambda>c. \<not> is_digit U c) (take k (p @ d # r))" "is_digit U d"
  shows "k \<le> length p"
proof (rule ccontr)
  assume "\<not> k \<le> length p"
  then have "d \<in> set (take k (p @ d # r))"
    by (simp add: take_Cons' )
  with assms show False by (auto simp: list_all_iff)
qed

lemma match_here_before:
  assumes U: "digits_proper U" and p: "list_all (\<lambda>c. \<not> is_digit U c) p"
    and d: "is_digit U a" "is_digit U b" "is_digit U c" "is_digit U d"
  shows "match_here U False AMOUNT_REGEX (p @ a # b # c # d # r) = None"
proof (rule match_here_none [OF U])
  fix k g
  assume n: "list_all (\<lambda>c. \<not> is_digit U c) (take k (p @ a # b # c # d # r))"
  from take_nondigit_le [OF n d(1)] have k: "k \<le> length p" .
  show "ms U False amount_core (g, drop k (p @ a # b # c # d # r)) = []"
  proof (cases "drop k p")
    case Nil
    with k show ?thesis by (simp add: core_long [OF U d])
  next
    case (Cons x xs)
    then have "x \<in> set p" by (metis in_set_dropD list.set_intros(1))
    with p have "\<not> is_digit U x" by (auto simp: list_all_iff)
    with k Cons show ?thesis by (simp add: core_nondigit)
  qed
qed


lemma match_here_three:
  assumes U: "digits_proper U" and d: "is_digit U a" "is_digit U b" "is_digit U c"
    "is_digit U d1" "is_digit U d2"
  shows "match_here U False AMOUNT_REGEX (a # b # c # 46 # d1 # d2 # suf)
           = Some ([(1, [a, b, c, 46, d1, d2])], suf)"
proof -
  from digit_not_punct [OF U d(1)] have a: "a \<noteq> 73" by simp
  have "ms U False (Opt amount_prefix) ([], a # b # c # 46 # d1 # d2 # suf)
          = [([], a # b # c # 46 # d1 # d2 # suf)]"
    using a by (simp add: ms_Opt amount_prefix_def ms_Seq ms_lit u_INR)
  then have "ms U False AMOUNT_REGEX ([], a # b # c # 46 # d1 # d2 # suf)
               = [([(1, [a, b, c, 46, d1, d2])], suf)]"
    by (simp add: AMOUNT_split ms_Seq [of U False "Opt _"] ms_Grp core_three [OF U d])
  then show ?thesis by (simp add: match_here_def)
qed

lemma finditer_skip_digits:
  assumes U: "digits_proper U"
  shows "list_all (is_digit U) ds \<Longrightarrow> 3 \<le> length ds \<Longrightarrow>
         finditer U False AMOUNT_REGEX (ds @ r)
           = finditer U False AMOUNT_REGEX (drop (length ds - 3) ds @ r)"
proof (induction ds)
  case Nil then show ?case by simp
next
  case (Cons a ds)
  show ?case
  proof (cases "3 \<le> length ds")
    case False
    with Cons.prems have "length (a # ds) - 3 = 0" by simp
    then show ?thesis by (simp only: drop_0)
  next
    case True
    then obtain b c d ds' where ds: "ds = b # c # d # ds'"
      by (cases ds; cases "tl ds"; cases "tl (tl ds)") auto
    from Cons.prems ds have dg: "is_digit U a" "is_digit U b" "is_digit U c" "is_digit U d"
      and all: "list_all (is_digit U) ds" by auto
    from match_here_before [OF U _ dg, of "[]" "ds' @ r"]
    have "match_here U False AMOUNT_REGEX (a # ds @ r) = None" by (simp add: ds)
    then have "finditer U False AMOUNT_REGEX ((a # ds) @ r) = finditer U False AMOUNT_REGEX (ds @ r)"
      by simp
    also have "\<dots> = finditer U False AMOUNT_REGEX (drop (length ds - 3) ds @ r)"
      by (rule Cons.IH [OF all True])
    also have "drop (length ds - 3) ds = drop (length (a # ds) - 3) (a # ds)"
    proof -
      have "length (a # ds) - 3 = Suc (length ds - 3)" using True by simp
      then show ?thesis by (simp only: drop_Suc_Cons)
    qed
    finally show ?thesis .
  qed
qed

lemma contains_single: "contains [x] s = (x \<in> set s)"
  by (induction s) auto

lemma search_later:
  "match_here U ic r (y # ys) \<noteq> None \<Longrightarrow> search U ic r (xs @ y # ys) \<noteq> None"
  by (induction xs) (auto split: option.splits)

lemma two_decimals_present:
  assumes "is_digit U d1" "is_digit U d2"
  shows "has_two_decimals U (xs @ 46 # d1 # d2 # suf)"
proof -
  have "ms U False frac_pattern ([], 46 # d1 # d2 # suf) = [([], suf)]"
    using assms by (simp add: frac_pattern_def ms_Seq ms_lit u_dot ms_Rep rep22 ms_digit_Cons)
  then have "match_here U False frac_pattern (46 # d1 # d2 # suf) \<noteq> None"
    by (simp add: match_here_def)
  from search_later [OF this] show ?thesis by (simp add: has_two_decimals_def)
qed

lemma star_concat:
  assumes f: "\<And>g s g' s'. (g', s') \<in> set (f (g, s)) \<Longrightarrow> g' = g \<and> (\<exists>m. s = m @ s' \<and> A m)"
  shows "(g', s') \<in> set (star f n (g, s)) \<Longrightarrow>
         g' = g \<and> (\<exists>ms. s = concat ms @ s' \<and> list_all A ms)"
proof (induction n arbitrary: s)
  case 0
  then show ?case by (auto intro: exI [of _ "[]"])
next
  case (Suc n)
  show ?case
  proof (cases "(g', s') = (g, s)")
    case True
    then show ?thesis by (auto intro: exI [of _ "[]"])
  next
    case False
    with Suc.prems obtain g1 s1 where a: "(g1, s1) \<in> set (f (g, s))"
      and b: "(g', s') \<in> set (star f n (g1, s1))"
      by (auto split: if_splits)
    from f [OF a] obtain m where g1: "g1 = g" and s1: "s = m @ s1" and m: "A m" by blast
    from Suc.IH [OF b [unfolded g1]] obtain ms where g': "g' = g" and s': "s1 = concat ms @ s'"
      and q: "list_all A ms" by blast
    have "s = concat (m # ms) @ s'" by (simp add: s1 s')
    moreover have "list_all A (m # ms)" using m q by simp
    ultimately show ?thesis using g' by blast
  qed
qed

lemma comma_group_step:
  assumes "(g', s') \<in> set (ms U False (Seq (lit (u '','')) (Rep 3 3 digit)) (g, s))"
  shows "g' = g \<and> (\<exists>m. s = m @ s' \<and> comma_group U m)"
proof -
  from assms have p: "prefix [44] s"
    and r: "(g', s') \<in> set (ms U False (Rep 3 3 digit) (g, drop 1 s))"
    by (auto simp: ms_Seq ms_lit u_comma split: if_splits)
  from p obtain s1 where s: "s = 44 # s1" by (auto simp: prefix_def)
  from r have "(g', s') \<in> set (ms U False (Rep 3 3 (Atom (In [DigitI]))) (g, s1))"
    by (simp add: s digit_def)
  then have g: "g' = g" and s': "s' = drop 3 s1" and l: "3 \<le> length s1"
    and d: "list_all (cls_match U False (In [DigitI])) (take 3 s1)"
    by (auto simp: ms_Rep_atom split: if_splits)
  from l obtain x y z where t: "s1 = x # y # z # s'"
    using s' by (cases s1; cases "tl s1"; cases "tl (tl s1)") auto
  with d have "comma_group U [44, x, y, z]" by (auto simp: comma_group_def is_digit_def)
  moreover have "s = [44, x, y, z] @ s'" by (simp add: s t)
  ultimately show ?thesis using g by blast
qed

lemma digits13_step:
  assumes "(g', s') \<in> set (ms U False (Rep 1 3 digit) (g, s))"
  shows "g' = g \<and> (\<exists>D. s = D @ s' \<and> D \<noteq> [] \<and> length D \<le> 3 \<and> list_all (is_digit U) D)"
proof -
  have one: "\<And>g s g' s'. (g', s') \<in> set (ms U False digit (g, s)) \<Longrightarrow>
      g' = g \<and> (\<exists>x. s = x # s' \<and> is_digit U x)"
    subgoal for g s g' s' by (cases s) (auto simp: ms_digit_Nil ms_digit_Cons split: if_splits)
    done
  from assms consider
      (a) s1 g1 s2 g2 where "(g1, s1) \<in> set (ms U False digit (g, s))"
          "(g2, s2) \<in> set (ms U False digit (g1, s1))" "(g', s') \<in> set (ms U False digit (g2, s2))"
    | (b) s1 g1 where "(g1, s1) \<in> set (ms U False digit (g, s))"
          "(g', s') \<in> set (ms U False digit (g1, s1))"
    | (c) "(g', s') \<in> set (ms U False digit (g, s))"
    by (auto simp: ms_Rep rep13)
  then show ?thesis
  proof cases
    case a
    from one [OF a(1)] one [OF a(2)] one [OF a(3)]
    obtain x y z where "g' = g" "s = [x, y, z] @ s'" "is_digit U x" "is_digit U y" "is_digit U z"
      by auto
    then show ?thesis by (intro conjI exI [of _ "[x, y, z]"]) auto
  next
    case b
    from one [OF b(1)] one [OF b(2)]
    obtain x y where "g' = g" "s = [x, y] @ s'" "is_digit U x" "is_digit U y"
      by auto
    then show ?thesis by (intro conjI exI [of _ "[x, y]"]) auto
  next
    case c
    from one [OF c]
    obtain x where "g' = g" "s = [x] @ s'" "is_digit U x"
      by auto
    then show ?thesis by (intro conjI exI [of _ "[x]"]) auto
  qed
qed

text \<open>What a match of the amount reads: one to three digits, comma groups, a point, two digits.\<close>

lemma core_structure:
  assumes "(g', s') \<in> set (ms U False amount_core (g, s))"
  shows "g' = g \<and> (\<exists>D gs e1 e2. s = D @ concat gs @ 46 # e1 # e2 # s'
            \<and> D \<noteq> [] \<and> length D \<le> 3 \<and> list_all (is_digit U) D
            \<and> list_all (comma_group U) gs \<and> is_digit U e1 \<and> is_digit U e2)"
proof -
  from assms obtain g1 s1 g2 s2 where
      a: "(g1, s1) \<in> set (ms U False (Rep 1 3 digit) (g, s))"
    and b: "(g2, s2) \<in> set (ms U False (Star (Seq (lit (u '','')) (Rep 3 3 digit))) (g1, s1))"
    and c: "(g', s') \<in> set (ms U False (Seq (lit (u ''.'')) (Rep 2 2 digit)) (g2, s2))"
    by (auto simp: amount_core_def ms_Seq [of U False "Rep _ _ _"] ms_Seq [of U False "Star _"])
  from digits13_step [OF a] obtain D where g1: "g1 = g" and s1: "s = D @ s1"
    and D: "D \<noteq> []" "length D \<le> 3" "list_all (is_digit U) D" by blast
  from b have "(g2, s2) \<in> set (star (ms U False (Seq (lit (u '','')) (Rep 3 3 digit))) (length s1) (g1, s1))"
    by (simp add: ms_Star)
  from star_concat [of "ms U False (Seq (lit (u '','')) (Rep 3 3 digit))" "comma_group U",
      OF comma_group_step this]
  obtain gs where g2: "g2 = g1" and s2: "s1 = concat gs @ s2"
    and gs: "list_all (comma_group U) gs" by blast
  from c have p: "prefix [46] s2" and r: "(g', s') \<in> set (ms U False (Rep 2 2 digit) (g2, drop 1 s2))"
    by (auto simp: ms_Seq ms_lit u_dot split: if_splits)
  from p obtain s3 where s3: "s2 = 46 # s3" by (auto simp: prefix_def)
  from r have "(g', s') \<in> set (ms U False (Rep 2 2 (Atom (In [DigitI]))) (g2, s3))"
    by (simp add: s3 digit_def)
  then have g': "g' = g2" and s': "s' = drop 2 s3"
    and l: "2 \<le> length s3" and d: "list_all (cls_match U False (In [DigitI])) (take 2 s3)"
    by (auto simp: ms_Rep_atom split: if_splits)
  from l obtain e1 e2 where t: "s3 = e1 # e2 # s'"
    using s' by (cases s3; cases "tl s3") auto
  with d have dd: "is_digit U e1" "is_digit U e2" by (auto simp: is_digit_def)
  have "s = D @ concat gs @ 46 # e1 # e2 # s'" by (simp add: s1 s2 s3 t)
  with D gs dd g' g2 g1 show ?thesis by blast
qed


lemma comma_group_chars: "comma_group U m \<Longrightarrow> digits_proper U \<Longrightarrow> 46 \<notin> set m"
  using digit_not_punct
  by (auto simp: comma_group_def split: list.splits)

lemma digits_no_point: "digits_proper U \<Longrightarrow> list_all (is_digit U) xs \<Longrightarrow> 46 \<notin> set xs"
  using digit_not_punct by (auto simp: list_all_iff)

lemma groups_no_point:
  "digits_proper U \<Longrightarrow> list_all (comma_group U) gs \<Longrightarrow> 46 \<notin> set (concat gs)"
  using comma_group_chars by (auto simp: list_all_iff)

text \<open>No amount ends in four digits in a row before its point.\<close>

lemma integer_part_end:
  assumes U: "digits_proper U"
    and D: "length D \<le> 3" and gs: "list_all (comma_group U) gs"
    and ds: "list_all (is_digit U) ds" "4 \<le> length ds"
  shows "D @ concat gs \<noteq> q @ ds"
proof
  assume e: "D @ concat gs = q @ ds"
  from ds(2) obtain r1 r2 r3 r4 rs where r: "rev ds = r1 # r2 # r3 # r4 # rs"
    by (cases "rev ds"; cases "tl (rev ds)"; cases "tl (tl (rev ds))"; cases "tl (tl (tl (rev ds)))")
       auto
  then have "r4 \<in> set (rev ds)" by simp
  with ds(1) have d4: "is_digit U r4" by (auto simp: list_all_iff)
  show False
  proof (cases gs rule: rev_cases)
    case Nil
    with e have "D = q @ ds" by simp
    then have "length D = length q + length ds" by simp
    with D ds(2) show False by simp
  next
    case (snoc gs' m)
    with gs have "comma_group U m" by simp
    then obtain x y z where m: "m = [44, x, y, z]"
      by (auto simp: comma_group_def split: list.splits)
    from e have "rev (D @ concat gs) = rev (q @ ds)" by simp
    then have "z # y # x # 44 # (rev (concat gs') @ rev D) = r1 # r2 # r3 # r4 # (rs @ rev q)"
      by (simp add: snoc m r)
    then have "r4 = 44" by simp
    with d4 digit_not_punct [OF U] show False by blast
  qed
qed

lemma first_occurrence_unique:
  "x \<notin> set xs \<Longrightarrow> x \<notin> set xs' \<Longrightarrow> xs @ x # ys = xs' @ x # ys' \<Longrightarrow> xs = xs' \<and> ys = ys'"
proof (induction xs arbitrary: xs')
  case Nil
  then show ?case by (cases xs') auto
next
  case (Cons a xs)
  then show ?case by (cases xs') auto
qed

lemma drop_prefix_part: "xs = ys @ zs \<Longrightarrow> drop (length ys) xs = zs"
  by simp

lemma match_crossing:
  assumes U: "digits_proper U"
    and ds: "list_all (is_digit U) ds" "4 \<le> length ds"
    and m: "match_here U False AMOUNT_REGEX (q @ ds @ 46 # T) = Some (g, rest)"
  shows "q \<noteq> [] \<and>
         ((\<exists>n. 0 < n \<and> rest = drop n q @ ds @ 46 # T)
          \<or> (is_digit U (last q) \<and> rest = drop 1 ds @ 46 # T)
          \<or> (last q = 46 \<and> rest = drop 2 ds @ 46 # T))"
proof -
  let ?s = "q @ ds @ 46 # T"
  from ds(2) obtain d0 ds0 where ds0: "ds = d0 # ds0" by (cases ds) auto
  with ds(1) have d0: "is_digit U d0" by simp
  from m have "(g, rest) \<in> set (ms U False AMOUNT_REGEX ([], ?s))"
    by (auto simp: match_here_def split: list.splits)
  then obtain g1 s1 where o: "(g1, s1) \<in> set (ms U False (Opt amount_prefix) ([], ?s))"
    and "(g, rest) \<in> set (ms U False (Grp 1 amount_core) (g1, s1))"
    by (auto simp: AMOUNT_split ms_Seq)
  then obtain g2 where c: "(g2, rest) \<in> set (ms U False amount_core (g1, s1))"
    by (auto simp: ms_Grp)
  from prefix_outcomes [OF o] obtain k where k: "s1 = drop k ?s"
    and j: "list_all (\<lambda>c. whitespace U c \<or> c \<in> {73, 78, 82}) (take k ?s)" by blast
  from j have "list_all (\<lambda>c. \<not> is_digit U c) (take k ?s)"
    using digit_not_punct [OF U] by (auto simp: list_all_iff)
  then have "list_all (\<lambda>c. \<not> is_digit U c) (take k (q @ d0 # (ds0 @ 46 # T)))"
    by (simp add: ds0)
  from take_nondigit_le [OF this d0] have kq: "k \<le> length q" .
  define q1 where "q1 = drop k q"
  have s1: "s1 = q1 @ ds @ 46 # T" using k kq by (simp add: q1_def)
  have last_q1: "q1 \<noteq> [] \<Longrightarrow> q \<noteq> [] \<and> last q1 = last q"
    using kq by (auto simp: q1_def last_drop)
  from core_structure [OF c] obtain D gs e1 e2 where
    st: "s1 = D @ concat gs @ 46 # e1 # e2 # rest"
    and D: "D \<noteq> []" "length D \<le> 3" "list_all (is_digit U) D"
    and gs: "list_all (comma_group U) gs" and e: "is_digit U e1" "is_digit U e2" by blast
  have nB: "46 \<notin> set (D @ concat gs)"
    using digits_no_point [OF U D(3)] groups_no_point [OF U gs] by simp
  have nds: "46 \<notin> set ds" by (rule digits_no_point [OF U ds(1)])
  show ?thesis
  proof (cases "46 \<in> set q1")
    case False
    with nds have n1: "46 \<notin> set (q1 @ ds)" by simp
    have eq0: "(q1 @ ds) @ 46 # T = (D @ concat gs) @ 46 # e1 # e2 # rest"
      using s1 st by simp
    have "q1 @ ds = D @ concat gs"
      by (rule conjunct1 [OF first_occurrence_unique [OF n1 nB eq0]])
    with integer_part_end [OF U D(2) gs ds, of q1] show ?thesis by simp
  next
    case True
    from split_list_first [OF True] obtain a b where ab: "q1 = a @ 46 # b" "46 \<notin> set a" by blast
    have eq0: "a @ 46 # (b @ ds @ 46 # T) = (D @ concat gs) @ 46 # e1 # e2 # rest"
      using s1 st ab by simp
    have eq: "b @ ds @ 46 # T = e1 # e2 # rest"
      by (rule conjunct2 [OF first_occurrence_unique [OF ab(2) nB eq0]])
    from ab have ne: "q1 \<noteq> []" by simp
    note lq = last_q1 [OF ne]
    show ?thesis
    proof (cases b)
      case Nil
      from ds(2) obtain x y ds2 where d2: "ds = x # y # ds2"
        by (cases ds; cases "tl ds") auto
      with eq Nil have r: "rest = drop 2 ds @ 46 # T" by simp
      have "last q1 = 46" using ab Nil by simp
      with lq have l: "last q = 46" by simp
      from lq have "q \<noteq> []" ..
      then show ?thesis
        by (rule conjI [OF _ disjI2 [OF disjI2 [OF conjI [OF l r]]]])
    next
      case (Cons x b1)
      show ?thesis
      proof (cases b1)
        case Nil
        with eq Cons ds0 have r: "rest = drop 1 ds @ 46 # T" and "x = e1" by auto
        moreover have "last q1 = x" using ab Cons Nil by simp
        ultimately have l: "is_digit U (last q)" using lq e by simp
        from lq have "q \<noteq> []" ..
        then show ?thesis
          by (rule conjI [OF _ disjI2 [OF disjI1 [OF conjI [OF l r]]]])
      next
        case (Cons y b2)
        with eq \<open>b = x # b1\<close> have r: "rest = b2 @ ds @ 46 # T" by simp
        have "q1 = (a @ [46, x, y]) @ b2" using ab Cons \<open>b = x # b1\<close> by simp
        then have "drop (length (a @ [46, x, y])) q1 = b2" by (rule drop_prefix_part)
        moreover have "length (a @ [46, x, y]) = length a + 3" by simp
        ultimately have "drop (length a + 3) q1 = b2" by (simp only:)
        then have "drop (length a + 3) (drop k q) = b2" by (simp only: q1_def)
        then have "drop (length a + 3 + k) q = b2" by (simp only: drop_drop)
        then have "rest = drop (length a + 3 + k) q @ ds @ 46 # T" by (simp only: r)
        moreover have "0 < length a + 3 + k" by simp
        ultimately have "\<exists>n. 0 < n \<and> rest = drop n q @ ds @ 46 # T"
          by (intro exI [of _ "length a + 3 + k"] conjI)
        moreover from lq have "q \<noteq> []" ..
        ultimately show ?thesis by (intro conjI disjI1)
      qed
    qed
  qed
qed

lemma core_two:
  assumes U: "digits_proper U" and d: "is_digit U a" "is_digit U b" "is_digit U d1" "is_digit U d2"
  shows "ms U False amount_core (g, a # b # 46 # d1 # d2 # s) = [(g, s)]"
proof -
  from digit_not_punct [OF U] have "\<not> is_digit U 46" by blast
  with d show ?thesis
    by (simp add: core_split ms_Seq ms_Rep rep13 ms_digit_Cons rest_digit [OF U] rest_dot)
qed

lemma match_here_two:
  assumes U: "digits_proper U" and d: "is_digit U a" "is_digit U b" "is_digit U d1" "is_digit U d2"
  shows "match_here U False AMOUNT_REGEX (a # b # 46 # d1 # d2 # suf)
           = Some ([(1, [a, b, 46, d1, d2])], suf)"
proof -
  from digit_not_punct [OF U d(1)] have a: "a \<noteq> 73" by simp
  have "ms U False (Opt amount_prefix) ([], a # b # 46 # d1 # d2 # suf)
          = [([], a # b # 46 # d1 # d2 # suf)]"
    using a by (simp add: ms_Opt amount_prefix_def ms_Seq ms_lit u_INR)
  then have "ms U False AMOUNT_REGEX ([], a # b # 46 # d1 # d2 # suf)
               = [([(1, [a, b, 46, d1, d2])], suf)]"
    by (simp add: AMOUNT_split ms_Seq [of U False "Opt _"] ms_Grp core_two [OF U d])
  then show ?thesis by (simp add: match_here_def)
qed

text \<open>One step of \<open>finditer\<close>.\<close>

lemma finditer_None:
  "match_here U ic r (c # cs) = None \<Longrightarrow> finditer U ic r (c # cs) = finditer U ic r cs"
  by simp

lemma finditer_Some:
  "match_here U ic r (c # cs) = Some (g, rest) \<Longrightarrow> length rest < length (c # cs) \<Longrightarrow>
   finditer U ic r (c # cs)
     = (g, take (length (c # cs) - length rest) (c # cs)) # finditer U ic r rest"
  by simp

text \<open>
  The matches before the digits: the scan arrives at the digits themselves, or a match that
  began earlier has taken one or two of them as its fraction.
\<close>

lemma finditer_scan:
  assumes U: "digits_proper U" and ds: "list_all (is_digit U) ds" "4 \<le> length ds"
  shows "\<exists>pre j. j \<le> 2 \<and> (j = 2 \<longrightarrow> q \<noteq> [] \<and> last q = 46)
           \<and> finditer U False AMOUNT_REGEX (q @ ds @ 46 # T)
               = pre @ finditer U False AMOUNT_REGEX (drop j ds @ 46 # T)"
proof (induction "length q" arbitrary: q rule: less_induct)
  case less
  show ?case
  proof (cases q)
    case Nil
    show ?thesis
      by (rule exI [of _ "[]"], rule exI [of _ 0]) (simp add: Nil)
  next
    case (Cons c q0)
    define cs where "cs = q0 @ ds @ 46 # T"
    have s: "q @ ds @ 46 # T = c # cs" by (simp add: Cons cs_def)
    have qne: "q \<noteq> []" by (simp add: Cons)
    show ?thesis
    proof (cases "match_here U False AMOUNT_REGEX (c # cs)")
      case None
      have f: "finditer U False AMOUNT_REGEX (q @ ds @ 46 # T)
                 = finditer U False AMOUNT_REGEX (q0 @ ds @ 46 # T)"
        unfolding s using finditer_None [OF None] by (simp only: cs_def)
      have "length q0 < length q" by (simp add: Cons)
      from less [OF this] obtain pre j where j1: "j \<le> 2"
        and j2: "j = 2 \<longrightarrow> q0 \<noteq> [] \<and> last q0 = 46"
        and e: "finditer U False AMOUNT_REGEX (q0 @ ds @ 46 # T)
                  = pre @ finditer U False AMOUNT_REGEX (drop j ds @ 46 # T)" by blast
      from j2 have j3: "j = 2 \<longrightarrow> q \<noteq> [] \<and> last q = 46" by (simp add: Cons)
      have e': "finditer U False AMOUNT_REGEX (q @ ds @ 46 # T)
                  = pre @ finditer U False AMOUNT_REGEX (drop j ds @ 46 # T)"
        by (simp only: f e)
      show ?thesis
        by (rule exI [of _ pre], rule exI [of _ j]) (intro conjI, rule j1, rule j3, rule e')
    next
      case (Some st)
      obtain g rest where st: "st = (g, rest)" by (cases st)
      from Some have m0: "match_here U False AMOUNT_REGEX (c # cs) = Some (g, rest)"
        by (simp only: st)
      then have m: "match_here U False AMOUNT_REGEX (q @ ds @ 46 # T) = Some (g, rest)"
        by (simp only: s)
      define hit where "hit = (g, take (length (c # cs) - length rest) (c # cs))"
      from match_crossing [OF U ds m] have
        "(\<exists>n. 0 < n \<and> rest = drop n q @ ds @ 46 # T)
          \<or> (is_digit U (last q) \<and> rest = drop 1 ds @ 46 # T)
          \<or> (last q = 46 \<and> rest = drop 2 ds @ 46 # T)" ..
      then show ?thesis
      proof (elim disjE exE conjE)
        fix n
        assume n: "0 < n" and r: "rest = drop n q @ ds @ 46 # T"
        have l: "length (drop n q) < length q" using n Cons by simp
        have "length rest < length (q @ ds @ 46 # T)" unfolding r using l by simp
        then have "length rest < length (c # cs)" by (simp only: s)
        from finditer_Some [OF m0 this]
        have f: "finditer U False AMOUNT_REGEX (q @ ds @ 46 # T)
                   = hit # finditer U False AMOUNT_REGEX (drop n q @ ds @ 46 # T)"
          by (simp only: s hit_def r)
        from less [OF l] obtain pre j where j1: "j \<le> 2"
          and j2: "j = 2 \<longrightarrow> drop n q \<noteq> [] \<and> last (drop n q) = 46"
          and e: "finditer U False AMOUNT_REGEX (drop n q @ ds @ 46 # T)
                    = pre @ finditer U False AMOUNT_REGEX (drop j ds @ 46 # T)" by blast
        have j3: "j = 2 \<longrightarrow> q \<noteq> [] \<and> last q = 46"
        proof
          assume "j = 2"
          with j2 have a: "drop n q \<noteq> []" and b: "last (drop n q) = 46" by simp_all
          from a have "n < length q" by simp
          then have "last (drop n q) = last q" by (rule last_drop)
          with b qne show "q \<noteq> [] \<and> last q = 46" by simp
        qed
        have e': "finditer U False AMOUNT_REGEX (q @ ds @ 46 # T)
                    = (hit # pre) @ finditer U False AMOUNT_REGEX (drop j ds @ 46 # T)"
          by (simp only: f e append_Cons)
        show ?thesis
          by (rule exI [of _ "hit # pre"], rule exI [of _ j]) (intro conjI, rule j1, rule j3, rule e')
      next
        assume r: "rest = drop 1 ds @ 46 # T"
        have "length rest < length (q @ ds @ 46 # T)" unfolding r using ds(2) by simp
        then have "length rest < length (c # cs)" by (simp only: s)
        from finditer_Some [OF m0 this]
        have f: "finditer U False AMOUNT_REGEX (q @ ds @ 46 # T)
                   = hit # finditer U False AMOUNT_REGEX (drop 1 ds @ 46 # T)"
          by (simp only: s hit_def r)
        then have e': "finditer U False AMOUNT_REGEX (q @ ds @ 46 # T)
                   = [hit] @ finditer U False AMOUNT_REGEX (drop 1 ds @ 46 # T)"
          by (simp only: append_Cons append_Nil)
        have j1: "(1::nat) \<le> 2" by simp
        have j3: "(1::nat) = 2 \<longrightarrow> q \<noteq> [] \<and> last q = 46" by simp
        show ?thesis
          by (rule exI [of _ "[hit]"], rule exI [of _ 1]) (intro conjI, rule j1, rule j3, rule e')
      next
        assume l: "last q = 46" and r: "rest = drop 2 ds @ 46 # T"
        have "length rest < length (q @ ds @ 46 # T)" unfolding r using ds(2) by simp
        then have "length rest < length (c # cs)" by (simp only: s)
        from finditer_Some [OF m0 this]
        have f: "finditer U False AMOUNT_REGEX (q @ ds @ 46 # T)
                   = hit # finditer U False AMOUNT_REGEX (drop 2 ds @ 46 # T)"
          by (simp only: s hit_def r)
        then have e': "finditer U False AMOUNT_REGEX (q @ ds @ 46 # T)
                   = [hit] @ finditer U False AMOUNT_REGEX (drop 2 ds @ 46 # T)"
          by (simp only: append_Cons append_Nil)
        have j1: "(2::nat) \<le> 2" by simp
        have j3: "(2::nat) = 2 \<longrightarrow> q \<noteq> [] \<and> last q = 46" using l qne by simp
        show ?thesis
          by (rule exI [of _ "[hit]"], rule exI [of _ 2]) (intro conjI, rule j1, rule j3, rule e')
      qed
    qed
  qed
qed

text \<open>From two or more digits before the point, the match is the last three of them at most.\<close>

lemma finditer_tail:
  assumes U: "digits_proper U" and e: "list_all (is_digit U) e" "2 \<le> length e"
    and d12: "is_digit U d1" "is_digit U d2"
  shows "finditer U False AMOUNT_REGEX (e @ 46 # d1 # d2 # suf)
           = ([(1, drop (length e - 3) e @ [46, d1, d2])], drop (length e - 3) e @ [46, d1, d2])
             # finditer U False AMOUNT_REGEX suf"
proof (cases "3 \<le> length e")
  case True
  let ?t = "drop (length e - 3) e"
  have "length ?t = 3" using True by simp
  then obtain x y z where t: "?t = [x, y, z]"
    by (cases ?t; cases "tl ?t"; cases "tl (tl ?t)"; cases "tl (tl (tl ?t))") auto
  have "set ?t \<subseteq> set e" by (rule set_drop_subset)
  with e(1) t have xyz: "is_digit U x" "is_digit U y" "is_digit U z" by (auto simp: list_all_iff)
  have "finditer U False AMOUNT_REGEX (e @ 46 # d1 # d2 # suf)
          = finditer U False AMOUNT_REGEX (?t @ 46 # d1 # d2 # suf)"
    by (rule finditer_skip_digits [OF U e(1) True])
  also have "\<dots> = ([(1, [x, y, z, 46, d1, d2])], [x, y, z, 46, d1, d2]) # finditer U False AMOUNT_REGEX suf"
    by (simp add: t match_here_three [OF U xyz d12])
  finally show ?thesis by (simp add: t)
next
  case False
  with e(2) have "length e = 2" by simp
  then obtain a b where ab: "e = [a, b]"
    by (cases e; cases "tl e"; cases "tl (tl e)") auto
  with e(1) have d: "is_digit U a" "is_digit U b" by auto
  show ?thesis by (simp add: ab match_here_two [OF U d d12])
qed

text \<open>
  The matches on a line that has four or more digits in a row before a point and two digits:
  some matches before, then the last three digits with the fraction; the last two digits only
  when the run has exactly four digits and follows a point whose match took the other two.
\<close>

lemma findall1_long_run:
  assumes U: "digits_proper U" and ds: "list_all (is_digit U) ds" "4 \<le> length ds"
    and d12: "is_digit U d1" "is_digit U d2"
  shows "\<exists>pre k. (k = 3 \<or> k = 2 \<and> length ds = 4 \<and> p \<noteq> [] \<and> last p = 46)
           \<and> findall1 U AMOUNT_REGEX (p @ ds @ 46 # d1 # d2 # suf)
               = pre @ (drop (length ds - k) ds @ [46, d1, d2]) # findall1 U AMOUNT_REGEX suf"
proof -
  from finditer_scan [OF U ds, of p "d1 # d2 # suf"] obtain pre j where
    j: "j \<le> 2" "j = 2 \<longrightarrow> p \<noteq> [] \<and> last p = 46"
    and f: "finditer U False AMOUNT_REGEX (p @ ds @ 46 # d1 # d2 # suf)
              = pre @ finditer U False AMOUNT_REGEX (drop j ds @ 46 # d1 # d2 # suf)" by blast
  let ?e = "drop j ds"
  have "set ?e \<subseteq> set ds" by (rule set_drop_subset)
  with ds(1) have e: "list_all (is_digit U) ?e" by (auto simp: list_all_iff)
  have l: "2 \<le> length ?e" using j(1) ds(2) by simp
  define k where "k = min 3 (length ?e)"
  have dk: "drop (length ?e - 3) ?e = drop (length ds - k) ds"
  proof -
    have "length ?e - 3 + j = length ds - k" using j(1) ds(2) by (auto simp: k_def)
    then show ?thesis by (simp only: drop_drop)
  qed
  have k: "k = 3 \<or> k = 2 \<and> length ds = 4 \<and> p \<noteq> [] \<and> last p = 46"
    using j ds(2) l by (auto simp: k_def min_def)
  have "findall1 U AMOUNT_REGEX (p @ ds @ 46 # d1 # d2 # suf)
      = map (group 1) pre @ (drop (length ds - k) ds @ [46, d1, d2]) # findall1 U AMOUNT_REGEX suf"
    unfolding findall1_def f finditer_tail [OF U e l d12] dk by (simp add: group_def)
  with k show ?thesis by blast
qed

lemma eas_loop_reach:
  "i < length lines \<Longrightarrow> \<forall>j<i. passes_over U kws (lines ! j) (lines ! Suc j) \<Longrightarrow>
   eas_loop U lines kws 0 = eas_loop U lines kws i"
proof (induction i)
  case 0
  show ?case by simp
next
  case (Suc i)
  from Suc.prems have il: "i < length lines" and S: "Suc i < length lines"
    and po: "passes_over U kws (lines ! i) (lines ! Suc i)"
    and b: "\<forall>j<i. passes_over U kws (lines ! j) (lines ! Suc j)" by auto
  have "eas_loop U lines kws i = eas_loop U lines kws (Suc i)"
    unfolding eas_loop_step [OF il] using po S
    by (auto simp: passes_over_def split: option.splits)
  with Suc.IH [OF il b] show ?case by simp
qed

lemma last_amount_last:
  "findall1 U AMOUNT_REGEX line = pre @ [m] \<Longrightarrow> last_amount U line = Some (strip_commas m)"
  by (cases pre) (simp_all add: last_amount_def)

lemma eas_loop_matched:
  assumes "i < length lines" "has_keyword U kws (lines ! i)" "has_two_decimals U (lines ! i)"
    "last_amount U (lines ! i) = Some a"
  shows "eas_loop U lines kws i = Some a"
  unfolding eas_loop_step [OF assms(1)] using assms(2-4) by simp

lemma eas_loop_following:
  assumes "i < length lines" "Suc i < length lines" "has_keyword U kws (lines ! i)"
    "\<not> (has_percent (lines ! i) \<and> \<not> has_two_decimals U (lines ! i))"
    "last_amount U (lines ! i) = None" "\<not> has_percent (lines ! Suc i)"
    "last_amount U (lines ! Suc i) = Some a"
  shows "eas_loop U lines kws i = Some a"
  unfolding eas_loop_step [OF assms(1)] using assms(2-7) by auto

text \<open>
  Every value of the search is taken on one of two paths: from a keyword line that is not
  skipped, or from the line after such a line that has no amount; the loop has passed over
  the lines before.
\<close>

lemma eas_loop_source:
  "eas_loop U lines kws n = Some a \<Longrightarrow>
   \<exists>i. n \<le> i \<and> i < length lines
     \<and> (\<forall>j. n \<le> j \<and> j < i \<longrightarrow> passes_over U kws (lines ! j) (lines ! Suc j))
     \<and> has_keyword U kws (lines ! i)
     \<and> \<not> (has_percent (lines ! i) \<and> \<not> has_two_decimals U (lines ! i))
     \<and> (last_amount U (lines ! i) = Some a
        \<or> (last_amount U (lines ! i) = None \<and> Suc i < length lines
            \<and> \<not> has_percent (lines ! Suc i) \<and> last_amount U (lines ! Suc i) = Some a))"
proof (induction "length lines - n" arbitrary: n rule: less_induct)
  case less
  have n: "n < length lines"
  proof (rule ccontr)
    assume "\<not> n < length lines"
    then have "eas_loop U lines kws n = None" by (simp add: eas_loop_past)
    with less.prems show False by simp
  qed
  let ?here = "has_keyword U kws (lines ! n)
     \<and> \<not> (has_percent (lines ! n) \<and> \<not> has_two_decimals U (lines ! n))
     \<and> (last_amount U (lines ! n) = Some a
        \<or> (last_amount U (lines ! n) = None \<and> Suc n < length lines
            \<and> \<not> has_percent (lines ! Suc n) \<and> last_amount U (lines ! Suc n) = Some a))"
  show ?case
  proof (cases ?here)
    case True
    have "n \<le> n \<and> n < length lines
      \<and> (\<forall>j. n \<le> j \<and> j < n \<longrightarrow> passes_over U kws (lines ! j) (lines ! Suc j)) \<and> ?here"
      using n True by auto
    then show ?thesis by (rule exI [of _ n])
  next
    case False
    with less.prems have nx: "eas_loop U lines kws (Suc n) = Some a"
      unfolding eas_loop_step [OF n] by (auto split: if_splits option.splits)
    have "length lines - Suc n < length lines - n" using n by simp
    from less.hyps [OF this nx] obtain i where i: "Suc n \<le> i" "i < length lines"
      and b: "\<forall>j. Suc n \<le> j \<and> j < i \<longrightarrow> passes_over U kws (lines ! j) (lines ! Suc j)"
      and h: "has_keyword U kws (lines ! i)
     \<and> \<not> (has_percent (lines ! i) \<and> \<not> has_two_decimals U (lines ! i))
     \<and> (last_amount U (lines ! i) = Some a
        \<or> (last_amount U (lines ! i) = None \<and> Suc i < length lines
            \<and> \<not> has_percent (lines ! Suc i) \<and> last_amount U (lines ! Suc i) = Some a))"
      by blast
    from i have S: "Suc n < length lines" by simp
    from False less.prems S have po: "passes_over U kws (lines ! n) (lines ! Suc n)"
      unfolding eas_loop_step [OF n] passes_over_def
      by (auto split: if_splits option.splits)
    have "\<forall>j. n \<le> j \<and> j < i \<longrightarrow> passes_over U kws (lines ! j) (lines ! Suc j)"
    proof (intro allI impI)
      fix j assume j: "n \<le> j \<and> j < i"
      show "passes_over U kws (lines ! j) (lines ! Suc j)"
      proof (cases "j = n")
        case True then show ?thesis using po by simp
      next
        case False
        with j have "Suc n \<le> j \<and> j < i" by simp
        with b show ?thesis by blast
      qed
    qed
    moreover have "n \<le> i" using i(1) by simp
    ultimately have "n \<le> i \<and> i < length lines
     \<and> (\<forall>j. n \<le> j \<and> j < i \<longrightarrow> passes_over U kws (lines ! j) (lines ! Suc j))
     \<and> has_keyword U kws (lines ! i)
     \<and> \<not> (has_percent (lines ! i) \<and> \<not> has_two_decimals U (lines ! i))
     \<and> (last_amount U (lines ! i) = Some a
        \<or> (last_amount U (lines ! i) = None \<and> Suc i < length lines
            \<and> \<not> has_percent (lines ! Suc i) \<and> last_amount U (lines ! Suc i) = Some a))"
      using i(2) h by simp
    then show ?thesis by (rule exI [of _ i])
  qed
qed

text \<open>
  Claim C9. Take a line that has, somewhere, four or more digits in a row, a decimal point and
  two digits (an amount whose integer part is written without thousands separators), and no
  further amount after them. Whatever comes before the digits, and wherever the search takes
  its value from this line (the line is the first keyword line that the loop does not pass
  over, at any position of the list, or it follows such a line that has no amount of its
  own), the value is the last three digits of the integer part with the two fraction digits,
  for example \<open>234.56\<close> for \<open>Grand Total 1234.56\<close>. The one exception: the integer part has
  exactly four digits and follows a point whose match took the first two of them as its
  fraction, as in \<open>Total 5.1234.56\<close>; then the value is the last two digits with the
  fraction, here \<open>34.56\<close>. In all cases the value is not the whole amount: \<open>\d{1,3}\<close> cannot
  be followed by a fourth digit, and what precedes the point of a match never ends in four
  digits.
\<close>

theorem C9_long_integer_part:
  assumes U: "digits_proper U"
    and ds: "list_all (is_digit U) ds" "4 \<le> length ds"
    and d12: "is_digit U d1" "is_digit U d2"
    and suf: "findall1 U AMOUNT_REGEX suf = []"
    and line: "line = p @ ds @ 46 # d1 # d2 # suf"
    and i: "i < length lines"
    and before: "\<forall>j<i. passes_over U kws (lines ! j) (lines ! Suc j)"
    and path: "(lines ! i = line \<and> has_keyword U kws line)
             \<or> (Suc i < length lines \<and> lines ! Suc i = line \<and> \<not> has_percent line
                 \<and> has_keyword U kws (lines ! i)
                 \<and> \<not> (has_percent (lines ! i) \<and> \<not> has_two_decimals U (lines ! i))
                 \<and> last_amount U (lines ! i) = None)"
  shows "(extract_amount_smart U lines kws = Some (drop (length ds - 3) ds @ [46, d1, d2])
          \<or> (length ds = 4 \<and> p \<noteq> [] \<and> last p = 46
              \<and> extract_amount_smart U lines kws = Some (drop 2 ds @ [46, d1, d2])))
       \<and> extract_amount_smart U lines kws \<noteq> Some (ds @ [46, d1, d2])
       \<and> extract_amount_smart ascii [u ''Total 5.1234.56''] [u ''Total''] = Some (u ''34.56'')"
proof -
  from findall1_long_run [OF U ds d12, of p suf] obtain pre k where
    k: "k = 3 \<or> k = 2 \<and> length ds = 4 \<and> p \<noteq> [] \<and> last p = 46"
    and f: "findall1 U AMOUNT_REGEX line = pre @ [drop (length ds - k) ds @ [46, d1, d2]]"
    unfolding line suf by blast
  define m where "m = drop (length ds - k) ds @ [46, d1, d2]"
  have "set (drop (length ds - k) ds) \<subseteq> set ds" by (rule set_drop_subset)
  with ds(1) d12 have "44 \<notin> set m"
    using digit_not_punct [OF U] by (auto simp: list_all_iff m_def)
  then have "strip_commas m = m"
    unfolding strip_commas_def u_comma by (intro replace_absent) (simp add: contains_single)
  with last_amount_last [OF f [folded m_def]] have la: "last_amount U line = Some m" by simp
  have td: "has_two_decimals U line"
    unfolding line using two_decimals_present [OF d12, of "p @ ds" suf] by simp
  have "eas_loop U lines kws i = Some m"
    using path
  proof
    assume a: "lines ! i = line \<and> has_keyword U kws line"
    show ?thesis
      by (rule eas_loop_matched [OF i]) (simp_all add: a td la)
  next
    assume b: "Suc i < length lines \<and> lines ! Suc i = line \<and> \<not> has_percent line
                 \<and> has_keyword U kws (lines ! i)
                 \<and> \<not> (has_percent (lines ! i) \<and> \<not> has_two_decimals U (lines ! i))
                 \<and> last_amount U (lines ! i) = None"
    show ?thesis
      by (rule eas_loop_following [OF i]) (simp_all add: b la)
  qed
  with eas_loop_reach [OF i before] have r: "extract_amount_smart U lines kws = Some m"
    by (simp add: extract_amount_smart_def)
  have lm: "length m = k + 3" using k ds(2) by (auto simp: m_def)
  have "length m \<noteq> length (ds @ [46, d1, d2])" using k ds(2) unfolding lm by auto
  then have ne: "m \<noteq> ds @ [46, d1, d2]" by metis
  have c1: "extract_amount_smart U lines kws = Some (drop (length ds - 3) ds @ [46, d1, d2])
          \<or> (length ds = 4 \<and> p \<noteq> [] \<and> last p = 46
              \<and> extract_amount_smart U lines kws = Some (drop 2 ds @ [46, d1, d2]))"
    using k
  proof
    assume "k = 3"
    then show ?thesis using r by (simp add: m_def)
  next
    assume "k = 2 \<and> length ds = 4 \<and> p \<noteq> [] \<and> last p = 46"
    then show ?thesis using r by (simp add: m_def)
  qed
  have c2: "extract_amount_smart U lines kws \<noteq> Some (ds @ [46, d1, d2])"
    using r ne by simp
  have c3: "extract_amount_smart ascii [u ''Total 5.1234.56''] [u ''Total''] = Some (u ''34.56'')"
    by code_simp
  from c1 c2 c3 show ?thesis by (intro conjI)
qed

lemma digits_proper_ascii: "digits_proper ascii"
  by (auto simp: digits_proper_def ascii_def u_def)

theorem C9_long_integer_part_witness:
  "extract_amount_smart ascii [u ''TAX INVOICE'', u ''CGST 9% 1234.56''] [u ''CGST'']
     = Some (u ''234.56'')
   \<and> extract_amount_smart ascii [u ''Grand Total'', u ''1234.56''] [u ''Grand Total'']
       = Some (u ''234.56'')
   \<and> extract_amount_smart ascii [u ''Grand Total 1234.56''] [u ''Grand Total'']
       = Some (u ''234.56'')
   \<and> extract_amount_smart ascii [u ''Grand Total 1234.56''] [u ''Grand Total'']
       \<noteq> Some (u ''1234.56'')"
proof -
  have ds: "list_all (is_digit ascii) (u ''1234'')" "4 \<le> length (u ''1234'')"
    by (simp_all add: is_digit_def ascii_def u_def)
  have d12: "is_digit ascii 53" "is_digit ascii 54"
    by (simp_all add: is_digit_def ascii_def)
  have suf: "findall1 ascii AMOUNT_REGEX [] = []"
    by code_simp
  have t3: "drop (length (u ''1234'') - 3) (u ''1234'') @ [46, 53, 54] = u ''234.56''"
    by (simp add: u_def)
  have whole: "u ''1234'' @ [46, 53, 54] = u ''1234.56''"
    by (simp add: u_def)
  have sp: "last (u ''CGST 9% '') \<noteq> 46" "last (u ''Grand Total '') \<noteq> 46"
    by (simp_all add: u_def)

  have l1: "u ''CGST 9% 1234.56'' = u ''CGST 9% '' @ u ''1234'' @ 46 # 53 # 54 # []"
    by (simp add: u_def)
  have i1: "1 < length [u ''TAX INVOICE'', u ''CGST 9% 1234.56'']"
    by simp
  have "\<not> has_keyword ascii [u ''CGST''] (u ''TAX INVOICE'')"
    by code_simp
  then have b1: "\<forall>j<1. passes_over ascii [u ''CGST'']
      ([u ''TAX INVOICE'', u ''CGST 9% 1234.56''] ! j)
      ([u ''TAX INVOICE'', u ''CGST 9% 1234.56''] ! Suc j)"
    by (simp add: passes_over_def)
  have "has_keyword ascii [u ''CGST''] (u ''CGST 9% 1234.56'')"
    by code_simp
  then have p1: "([u ''TAX INVOICE'', u ''CGST 9% 1234.56''] ! 1 = u ''CGST 9% 1234.56''
        \<and> has_keyword ascii [u ''CGST''] (u ''CGST 9% 1234.56''))
     \<or> (Suc 1 < length [u ''TAX INVOICE'', u ''CGST 9% 1234.56'']
        \<and> [u ''TAX INVOICE'', u ''CGST 9% 1234.56''] ! Suc 1 = u ''CGST 9% 1234.56''
        \<and> \<not> has_percent (u ''CGST 9% 1234.56'')
        \<and> has_keyword ascii [u ''CGST''] ([u ''TAX INVOICE'', u ''CGST 9% 1234.56''] ! 1)
        \<and> \<not> (has_percent ([u ''TAX INVOICE'', u ''CGST 9% 1234.56''] ! 1)
              \<and> \<not> has_two_decimals ascii ([u ''TAX INVOICE'', u ''CGST 9% 1234.56''] ! 1))
        \<and> last_amount ascii ([u ''TAX INVOICE'', u ''CGST 9% 1234.56''] ! 1) = None)"
    by simp
  from C9_long_integer_part [OF digits_proper_ascii ds d12 suf l1 i1 b1 p1] sp(1)
  have r1: "extract_amount_smart ascii [u ''TAX INVOICE'', u ''CGST 9% 1234.56''] [u ''CGST'']
     = Some (u ''234.56'')"
    unfolding t3 by blast

  have l2: "u ''1234.56'' = [] @ u ''1234'' @ 46 # 53 # 54 # []"
    by (simp add: u_def)
  have i2: "0 < length [u ''Grand Total'', u ''1234.56'']"
    by simp
  have b2: "\<forall>j<0. passes_over ascii [u ''Grand Total'']
      ([u ''Grand Total'', u ''1234.56''] ! j) ([u ''Grand Total'', u ''1234.56''] ! Suc j)"
    by simp
  have f2: "\<not> has_percent (u ''1234.56'')" "has_keyword ascii [u ''Grand Total''] (u ''Grand Total'')"
    "\<not> has_percent (u ''Grand Total'')" "last_amount ascii (u ''Grand Total'') = None"
    by code_simp+
  then have p2: "([u ''Grand Total'', u ''1234.56''] ! 0 = u ''1234.56''
        \<and> has_keyword ascii [u ''Grand Total''] (u ''1234.56''))
     \<or> (Suc 0 < length [u ''Grand Total'', u ''1234.56'']
        \<and> [u ''Grand Total'', u ''1234.56''] ! Suc 0 = u ''1234.56''
        \<and> \<not> has_percent (u ''1234.56'')
        \<and> has_keyword ascii [u ''Grand Total''] ([u ''Grand Total'', u ''1234.56''] ! 0)
        \<and> \<not> (has_percent ([u ''Grand Total'', u ''1234.56''] ! 0)
              \<and> \<not> has_two_decimals ascii ([u ''Grand Total'', u ''1234.56''] ! 0))
        \<and> last_amount ascii ([u ''Grand Total'', u ''1234.56''] ! 0) = None)"
    by simp
  from C9_long_integer_part [OF digits_proper_ascii ds d12 suf l2 i2 b2 p2]
  have r2: "extract_amount_smart ascii [u ''Grand Total'', u ''1234.56''] [u ''Grand Total'']
       = Some (u ''234.56'')"
    unfolding t3 by blast

  have l3: "u ''Grand Total 1234.56'' = u ''Grand Total '' @ u ''1234'' @ 46 # 53 # 54 # []"
    by (simp add: u_def)
  have i3: "0 < length [u ''Grand Total 1234.56'']"
    by simp
  have b3: "\<forall>j<0. passes_over ascii [u ''Grand Total'']
      ([u ''Grand Total 1234.56''] ! j) ([u ''Grand Total 1234.56''] ! Suc j)"
    by simp
  have "has_keyword ascii [u ''Grand Total''] (u ''Grand Total 1234.56'')"
    by code_simp
  then have p3: "([u ''Grand Total 1234.56''] ! 0 = u ''Grand Total 1234.56''
        \<and> has_keyword ascii [u ''Grand Total''] (u ''Grand Total 1234.56''))
     \<or> (Suc 0 < length [u ''Grand Total 1234.56'']
        \<and> [u ''Grand Total 1234.56''] ! Suc 0 = u ''Grand Total 1234.56''
        \<and> \<not> has_percent (u ''Grand Total 1234.56'')
        \<and> has_keyword ascii [u ''Grand Total''] ([u ''Grand Total 1234.56''] ! 0)
        \<and> \<not> (has_percent ([u ''Grand Total 1234.56''] ! 0)
              \<and> \<not> has_two_decimals ascii ([u ''Grand Total 1234.56''] ! 0))
        \<and> last_amount ascii ([u ''Grand Total 1234.56''] ! 0) = None)"
    by simp
  from C9_long_integer_part [OF digits_proper_ascii ds d12 suf l3 i3 b3 p3] sp(2)
  have r3: "extract_amount_smart ascii [u ''Grand Total 1234.56''] [u ''Grand Total'']
       = Some (u ''234.56'')"
    and n3: "extract_amount_smart ascii [u ''Grand Total 1234.56''] [u ''Grand Total'']
       \<noteq> Some (u ''1234.56'')"
    unfolding t3 whole by blast+
  from r1 r2 r3 n3 show ?thesis by (intro conjI)
qed

section \<open>The fields of the record\<close>

text \<open>A key that is present stays present through every step.\<close>

lemma vendor_loop_present: "data k \<noteq> None \<Longrightarrow> vendor_loop U ls data k \<noteq> None"
  by (induction ls) auto

lemma total_loop_present: "data k \<noteq> None \<Longrightarrow> total_loop U lines keys data k \<noteq> None"
  by (induction keys) auto

lemma set_amount_present: "data k \<noteq> None \<Longrightarrow> set_amount U lines key kws data k \<noteq> None"
  by (simp add: set_amount_def split: option.splits)

lemma fallback_present: "data k \<noteq> None \<Longrightarrow> fallback U lines data k \<noteq> None"
  by (simp add: fallback_def split: sum.splits option.splits)

lemma set_gstin_present: "data k \<noteq> None \<Longrightarrow> set_gstin U t data k \<noteq> None"
  by (simp add: set_gstin_def split: list.splits)

lemma set_buyer_present: "data k \<noteq> None \<Longrightarrow> set_buyer U t data k \<noteq> None"
  by (simp add: set_buyer_def split: option.splits)

lemma set_invoice_number_present:
  "data k \<noteq> None \<Longrightarrow> set_invoice_number U t data k \<noteq> None"
  by (simp add: set_invoice_number_def split: option.splits)

lemma set_invoice_date_present:
  "data k \<noteq> None \<Longrightarrow> set_invoice_date U t data k \<noteq> None"
  by (simp add: set_invoice_date_def split: option.splits)

lemma set_vendor_alias_present:
  "data k \<noteq> None \<Longrightarrow> data ''vendor_name'' \<noteq> None \<Longrightarrow> set_vendor_alias data k \<noteq> None"
  by (simp add: set_vendor_alias_def)

lemma data0_present: "k \<in> set extracted_invoice_fields \<Longrightarrow> data0 k \<noteq> None"
  by (auto simp: extracted_invoice_fields_def data0_def)

lemma data0_vendor_name: "data0 ''vendor_name'' \<noteq> None"
  by (simp add: data0_def)

lemma parse_present:
  assumes "k \<in> set extracted_invoice_fields"
  shows "parse_deep_fields U t k \<noteq> None"
  unfolding parse_deep_fields_def Let_def
  by (intro set_vendor_alias_present fallback_present total_loop_present set_amount_present
      set_invoice_date_present set_invoice_number_present set_buyer_present set_gstin_present
      vendor_loop_present data0_present data0_vendor_name assms)

text \<open>A step whose heuristic finds nothing leaves the record as it is.\<close>

lemma vendor_loop_boilerplate:
  "list_all (boilerplate U) ls \<Longrightarrow> vendor_loop U ls data = data"
  by (induction ls) (auto simp: boilerplate_def)

lemma total_loop_none:
  "\<forall>key\<in>set keys. \<not> truthy (extract_amount_smart U lines [key]) \<Longrightarrow>
   total_loop U lines keys data = data"
  by (induction keys) auto

lemma set_amount_none:
  "\<not> truthy (extract_amount_smart U lines kws) \<Longrightarrow> set_amount U lines key kws data = data"
  by (cases "extract_amount_smart U lines kws") (auto simp: set_amount_def)

lemma py_float_zero:
  assumes "decimal U 48 = Some 0"
  shows "py_float U (u ''0.00'') = Inr (Finite 0)"
  using assms by (simp add: py_float_def u_def digits_val_def to_double_def)

lemma fallback_body_nothing:
  assumes z: "decimal U 48 = Some 0"
    and s: "\<not> truthy (extract_amount_smart U lines [u ''Subtotal'', u ''Sub Total'', u ''Total''])"
    and c: "data ''cgst'' = Some (u ''0.00'')" and g: "data ''sgst'' = Some (u ''0.00'')"
  shows "fallback_body U lines data = Inr None"
proof -
  have n: "u ''0.00'' \<noteq> []" by (simp add: u_def)
  have f: "float_if U (u ''0.00'') = Inr (Finite 0)"
    by (simp add: float_if_def n py_float_zero [OF z])
  have sub: "(case extract_amount_smart U lines [u ''Subtotal'', u ''Sub Total'', u ''Total''] of
              None \<Rightarrow> Inr (Finite 0)
            | Some s \<Rightarrow> float_if U s) = Inr (Finite 0)"
    using s by (cases "extract_amount_smart U lines [u ''Subtotal'', u ''Sub Total'', u ''Total'']")
      (auto simp: float_if_def)
  show ?thesis
    unfolding fallback_body_def sub
    by (simp add: getitem_def c g f to_double_def)
qed

lemma fallback_swallows: "fallback_body U lines data = Inl e \<Longrightarrow> fallback U lines data = data"
  by (simp add: fallback_def)

text \<open>
  Claim C4. For every text, the record that \<open>_parse_deep_fields\<close> returns has all nine
  fields, and so has the result of \<open>process_invoice\<close> for a text that is not empty. A field
  whose heuristic finds nothing holds its default: the number, the date and the buyer when
  their pattern is found nowhere in the text, the vendor name when each of the first ten
  lines is boilerplate, the tax identifier when no substring fits, \<open>cgst\<close> and \<open>sgst\<close> when
  their label search gives no value, the total when no label search gives a value (the
  character \<open>0\<close> being the digit zero), and the currency always. Nothing aborts the record:
  the only statements that can raise are in the \<open>try\<close> of the fallback, and an exception
  there leaves the record as it was.
\<close>

theorem C4_fields_present:
  "(\<forall>k\<in>set extracted_invoice_fields.
       parse_deep_fields U t k \<noteq> None \<and> (t \<noteq> [] \<longrightarrow> process_invoice U t k \<noteq> None))
   \<and> (search U True inv_pattern t = None
        \<longrightarrow> parse_deep_fields U t ''invoice_number'' = Some (u ''N/A''))
   \<and> (search U False date_pattern t = None
        \<longrightarrow> parse_deep_fields U t ''invoice_date'' = Some (u ''N/A''))
   \<and> (list_all (boilerplate U) (take 10 (lines_of U t))
        \<longrightarrow> parse_deep_fields U t ''vendor_name'' = Some (u ''Unknown''))
   \<and> (findall0 U gst_pattern t = []
        \<longrightarrow> parse_deep_fields U t ''vendor_gstin'' = Some (u ''N/A''))
   \<and> (search U True buyer_pattern t = None
        \<longrightarrow> parse_deep_fields U t ''buyer_name'' = Some (u ''Unknown''))
   \<and> (\<not> truthy (extract_amount_smart U (lines_of U t) [u ''CGST''])
        \<longrightarrow> parse_deep_fields U t ''cgst'' = Some (u ''0.00''))
   \<and> (\<not> truthy (extract_amount_smart U (lines_of U t) [u ''SGST''])
        \<longrightarrow> parse_deep_fields U t ''sgst'' = Some (u ''0.00''))
   \<and> (decimal U 48 = Some 0
        \<and> (\<forall>key\<in>set total_keys. \<not> truthy (extract_amount_smart U (lines_of U t) [key]))
        \<and> \<not> truthy (extract_amount_smart U (lines_of U t) subtotal_keys)
        \<and> \<not> truthy (extract_amount_smart U (lines_of U t) [u ''CGST''])
        \<and> \<not> truthy (extract_amount_smart U (lines_of U t) [u ''SGST''])
        \<longrightarrow> parse_deep_fields U t ''grand_total'' = Some (u ''0.00''))
   \<and> parse_deep_fields U t ''currency'' = Some (u ''INR'')
   \<and> (\<forall>e. fallback_body U ls d = Inl e \<longrightarrow> fallback U ls d = d)"
proof -
  have a: "\<forall>k\<in>set extracted_invoice_fields.
       parse_deep_fields U t k \<noteq> None \<and> (t \<noteq> [] \<longrightarrow> process_invoice U t k \<noteq> None)"
    by (simp add: process_invoice_def parse_present)
  have b: "search U True inv_pattern t = None
        \<longrightarrow> parse_deep_fields U t ''invoice_number'' = Some (u ''N/A'')"
    by (simp add: parse_deep_fields_def Let_def frame set_invoice_number_def data0_def)
  have c: "search U False date_pattern t = None
        \<longrightarrow> parse_deep_fields U t ''invoice_date'' = Some (u ''N/A'')"
    by (simp add: parse_deep_fields_def Let_def frame set_invoice_date_def data0_def)
  have d: "list_all (boilerplate U) (take 10 (lines_of U t))
        \<longrightarrow> parse_deep_fields U t ''vendor_name'' = Some (u ''Unknown'')"
    by (simp add: parse_deep_fields_def Let_def frame vendor_loop_boilerplate data0_def)
  have e: "findall0 U gst_pattern t = []
        \<longrightarrow> parse_deep_fields U t ''vendor_gstin'' = Some (u ''N/A'')"
    by (simp add: parse_deep_fields_def Let_def frame set_gstin_def data0_def)
  have f: "search U True buyer_pattern t = None
        \<longrightarrow> parse_deep_fields U t ''buyer_name'' = Some (u ''Unknown'')"
    by (simp add: parse_deep_fields_def Let_def frame set_buyer_def data0_def)
  have g: "\<not> truthy (extract_amount_smart U (lines_of U t) [u ''CGST''])
        \<longrightarrow> parse_deep_fields U t ''cgst'' = Some (u ''0.00'')"
    by (simp add: parse_deep_fields_def Let_def frame set_amount_none data0_def)
  have h: "\<not> truthy (extract_amount_smart U (lines_of U t) [u ''SGST''])
        \<longrightarrow> parse_deep_fields U t ''sgst'' = Some (u ''0.00'')"
    by (simp add: parse_deep_fields_def Let_def frame set_amount_none data0_def)
  have i: "decimal U 48 = Some 0
        \<and> (\<forall>key\<in>set total_keys. \<not> truthy (extract_amount_smart U (lines_of U t) [key]))
        \<and> \<not> truthy (extract_amount_smart U (lines_of U t) subtotal_keys)
        \<and> \<not> truthy (extract_amount_smart U (lines_of U t) [u ''CGST''])
        \<and> \<not> truthy (extract_amount_smart U (lines_of U t) [u ''SGST''])
        \<longrightarrow> parse_deep_fields U t ''grand_total'' = Some (u ''0.00'')"
  proof
    assume H: "decimal U 48 = Some 0
        \<and> (\<forall>key\<in>set total_keys. \<not> truthy (extract_amount_smart U (lines_of U t) [key]))
        \<and> \<not> truthy (extract_amount_smart U (lines_of U t) subtotal_keys)
        \<and> \<not> truthy (extract_amount_smart U (lines_of U t) [u ''CGST''])
        \<and> \<not> truthy (extract_amount_smart U (lines_of U t) [u ''SGST''])"
    define d0 where "d0 = set_invoice_date U t (set_invoice_number U t (set_buyer U t
        (set_gstin U t (vendor_loop U (take 10 (lines_of U t)) data0))))"
    have c0: "d0 ''cgst'' = Some (u ''0.00'')" and s0: "d0 ''sgst'' = Some (u ''0.00'')"
      and g0: "d0 ''grand_total'' = Some (u ''0.00'')"
      by (simp_all add: d0_def frame data0_def)
    from H have sub: "\<not> truthy (extract_amount_smart U (lines_of U t)
        [u ''Subtotal'', u ''Sub Total'', u ''Total''])" by (simp add: subtotal_keys_def)
    from H have z: "decimal U 48 = Some 0" ..
    from H have tl: "\<forall>key\<in>set total_keys. \<not> truthy (extract_amount_smart U (lines_of U t) [key])"
      by blast
    have "fallback_body U (lines_of U t) d0 = Inr None"
      by (rule fallback_body_nothing [OF z sub c0 s0])
    then have "fallback U (lines_of U t) d0 = d0" by (simp add: fallback_def)
    moreover have "parse_deep_fields U t ''grand_total'' = fallback U (lines_of U t) d0 ''grand_total''"
      using H by (simp add: parse_deep_fields_def Let_def set_vendor_alias_other
          set_amount_none total_loop_none [OF tl] d0_def)
    ultimately show "parse_deep_fields U t ''grand_total'' = Some (u ''0.00'')"
      using g0 by simp
  qed
  have j: "parse_deep_fields U t ''currency'' = Some (u ''INR'')"
    by (simp add: parse_deep_fields_def Let_def frame data0_def)
  have k: "\<forall>e. fallback_body U ls d = Inl e \<longrightarrow> fallback U ls d = d"
    by (simp add: fallback_swallows)
  from a b c d e f g h i j k show ?thesis by (intro conjI)
qed

theorem C4_fields_present_witness:
  "parse_deep_fields ascii (u ''TAX INVOICE'') ''invoice_number'' = Some (u ''N/A'')
   \<and> parse_deep_fields ascii (u ''TAX INVOICE'') ''invoice_date'' = Some (u ''N/A'')
   \<and> parse_deep_fields ascii (u ''TAX INVOICE'') ''vendor_name'' = Some (u ''Unknown'')
   \<and> parse_deep_fields ascii (u ''TAX INVOICE'') ''vendor_gstin'' = Some (u ''N/A'')
   \<and> parse_deep_fields ascii (u ''TAX INVOICE'') ''buyer_name'' = Some (u ''Unknown'')
   \<and> parse_deep_fields ascii (u ''TAX INVOICE'') ''cgst'' = Some (u ''0.00'')
   \<and> parse_deep_fields ascii (u ''TAX INVOICE'') ''sgst'' = Some (u ''0.00'')
   \<and> parse_deep_fields ascii (u ''TAX INVOICE'') ''grand_total'' = Some (u ''0.00'')
   \<and> parse_deep_fields ascii (u ''TAX INVOICE'') ''currency'' = Some (u ''INR'')
   \<and> process_invoice ascii (u ''TAX INVOICE'') ''currency'' \<noteq> None
   \<and> fallback ascii [] (data0(''cgst'' \<mapsto> u ''x'')) = data0(''cgst'' \<mapsto> u ''x'')"
proof -
  let ?t = "u ''TAX INVOICE''"
  have h1: "search ascii True inv_pattern ?t = None" by code_simp
  have h2: "search ascii False date_pattern ?t = None" by code_simp
  have h3: "list_all (boilerplate ascii) (take 10 (lines_of ascii ?t))" by code_simp
  have h4: "findall0 ascii gst_pattern ?t = []" by code_simp
  have h5: "search ascii True buyer_pattern ?t = None" by code_simp
  have h6: "\<not> truthy (extract_amount_smart ascii (lines_of ascii ?t) [u ''CGST''])" by code_simp
  have h7: "\<not> truthy (extract_amount_smart ascii (lines_of ascii ?t) [u ''SGST''])" by code_simp
  have z: "decimal ascii 48 = Some 0" by (simp add: ascii_def)
  have h8: "\<forall>key\<in>set total_keys. \<not> truthy (extract_amount_smart ascii (lines_of ascii ?t) [key])"
    by code_simp
  have h9: "\<not> truthy (extract_amount_smart ascii (lines_of ascii ?t) subtotal_keys)" by code_simp
  have h10: "fallback_body ascii [] (data0(''cgst'' \<mapsto> u ''x'')) = Inl ValueError" by code_simp
  have n: "?t \<noteq> []" by (simp add: u_def)
  have k: "''currency'' \<in> set extracted_invoice_fields" by (simp add: extracted_invoice_fields_def)
  from C4_fields_present [of ascii ?t "[]" "data0(''cgst'' \<mapsto> u ''x'')"]
    h1 h2 h3 h4 h5 h6 h7 z h8 h9 h10 n k
  show ?thesis by blast
qed

end
